theory Spec2Isabelle
  imports Main "HOL-Library.Sublist"
begin

section \<open>Data model of src/Promise.js\<close>

text \<open>
  The three status strings of the source (lines 19-21).
\<close>

datatype status = STATUS_PENDING | STATUS_FULFILLED | STATUS_REJECTED

text \<open>
  JavaScript values that can flow through a promise.  Objects living in the heap are
  referred to by address: \<open>PromiseRef a\<close> is the instance of \<open>Promise\<close> at address
  \<open>a\<close>, \<open>ArrayRef c\<close> is the \<open>values\<close> array owned by the \<open>Promise.all\<close> call number
  \<open>c\<close>.  \<open>Object i\<close> is an object or function without a callable \<open>then\<close> member,
  \<open>Error m\<close> an object made by \<open>new Error(m)\<close>, \<open>HostTypeError\<close> the TypeError the
  host raises when a property of \<open>null\<close> is read.  \<open>Thenable t\<close> is a foreign object
  or function with a \<open>then\<close> member described by \<open>t\<close>: either reading the member
  raises, or it is a function whose body is a script of calls to the two callbacks it
  receives, possibly ended by a raise.  The script does not catch what the callbacks raise.
\<close>

datatype val =
    Undefined
  | Null
  | Bool bool
  | Num int
  | Str string
  | Error string
  | HostTypeError
  | Object nat
  | ArrayRef nat
  | PromiseRef nat
  | Thenable then_member
and then_member =
    ThenGetterThrows val
  | ThenFunction "then_action list"
and then_action =
    CallResolve val
  | CallReject val
  | ThrowInThen val

text \<open>
  Functions handed to \<open>then\<close>.  A user function is pure: it maps its argument to a
  returned or a raised value, and carries a label under which its invocations are
  recorded.  The other constructors are the closures the source itself creates:
  lines 203-208 (\<open>adoptPromise\<close>) and lines 433-438 (\<open>Promise.all\<close>).
\<close>

datatype ret = Return val | Throw val

datatype callback =
    UserFn nat "val \<Rightarrow> ret"
  | AdoptResolve nat
  | AdoptReject nat
  | AllFulfilled nat nat
  | AllRejected nat nat

text \<open>The object pushed on \<open>me.list\<close> by \<open>then\<close> (lines 367-371).  A member that is
  not a function is \<open>None\<close>.\<close>

record reaction =
  r_resolve :: "callback option"
  r_reject :: "callback option"
  r_promise :: nat

record promise =
  p_status :: status
  p_value :: val
  p_reason :: val
  p_list :: "reaction list"

text \<open>The variables captured by the closures of one call of \<open>Promise.all\<close>
  (lines 405-409).  The array \<open>values\<close> may have holes.\<close>

record all_closure =
  a_result :: nat
  a_length :: nat
  a_couter :: nat
  a_values :: "val option list"

datatype event = Invoked nat val | ExecutorInvoked nat

text \<open>
  The state of the program: the heap of promise objects with the next free address, the
  closures of the \<open>Promise.all\<close> calls, the queue of functions handed to \<open>nextTick\<close>
  (each is \<open>function () { flush(me); }\<close>, represented by \<open>me\<close>), and the record of
  the user functions invoked so far.
\<close>

record state =
  heap :: "nat \<Rightarrow> promise"
  next_promise :: nat
  alls :: "nat \<Rightarrow> all_closure"
  next_all :: nat
  ticks :: "nat list"
  trace :: "event list"

datatype 'a outcome = OutOfFuel | Threw val state | Done 'a state

definition empty_promise :: promise where
  "empty_promise = \<lparr>p_status = STATUS_PENDING, p_value = Undefined, p_reason = Undefined, p_list = []\<rparr>"

definition init_state :: state where
  "init_state = \<lparr>heap = (\<lambda>_. empty_promise), next_promise = 0,
     alls = (\<lambda>_. \<lparr>a_result = 0, a_length = 0, a_couter = 0, a_values = []\<rparr>), next_all = 0,
     ticks = [], trace = []\<rparr>"

section \<open>Operations\<close>

definition set_promise :: "state \<Rightarrow> nat \<Rightarrow> promise \<Rightarrow> state" where
  "set_promise s a p = s\<lparr>heap := (heap s)(a := p)\<rparr>"

definition log_event :: "state \<Rightarrow> event \<Rightarrow> state" where
  "log_event s e = s\<lparr>trace := trace s @ [e]\<rparr>"

text \<open>\<open>nextTick(function () { flush(me); })\<close>, lines 375-379: the host runs the function
  later; the queue keeps the order of the calls.\<close>

definition nextTick :: "state \<Rightarrow> nat \<Rightarrow> state" where
  "nextTick s me = s\<lparr>ticks := ticks s @ [me]\<rparr>"

text \<open>\<open>rejectPromise\<close>, lines 300-309.\<close>

definition rejectPromise :: "state \<Rightarrow> nat \<Rightarrow> val \<Rightarrow> state" where
  "rejectPromise s promise reason =
     (if p_status (heap s promise) \<noteq> STATUS_PENDING then s
      else set_promise s promise
             ((heap s promise)\<lparr>p_status := STATUS_REJECTED, p_reason := reason\<rparr>))"

text \<open>The two assignments of lines 294-295.\<close>

definition fulfill :: "state \<Rightarrow> nat \<Rightarrow> val \<Rightarrow> state" where
  "fulfill s promise v =
     set_promise s promise ((heap s promise)\<lparr>p_status := STATUS_FULFILLED, p_value := v\<rparr>)"

text \<open>\<open>Promise(noop)\<close>: the constructor (lines 323-350) run on the function \<open>noop\<close>,
  which calls neither of the callbacks it is given: a new object with
  \<open>status = 'pending'\<close> and \<open>list = []\<close>.\<close>

definition Promise_noop :: "state \<Rightarrow> nat \<times> state" where
  "Promise_noop s =
     (next_promise s,
      (set_promise s (next_promise s) empty_promise)\<lparr>next_promise := Suc (next_promise s)\<rparr>)"

text \<open>\<open>proto.then\<close>, lines 361-385.\<close>

definition proto_then :: "state \<Rightarrow> nat \<Rightarrow> callback option \<Rightarrow> callback option \<Rightarrow> nat \<times> state" where
  "proto_then s me onFulfilled onRejected =
     (let (result, s1) = Promise_noop s;
          s2 = set_promise s1 me
                 ((heap s1 me)\<lparr>p_list := p_list (heap s1 me) @
                    [\<lparr>r_resolve = onFulfilled, r_reject = onRejected, r_promise = result\<rparr>]\<rparr>);
          s3 = (if p_status (heap s2 me) \<noteq> STATUS_PENDING then nextTick s2 me else s2)
      in (result, s3))"

text \<open>\<open>proto.catch\<close>, lines 393-395: \<open>null\<close> is not a function.\<close>

definition proto_catch :: "state \<Rightarrow> nat \<Rightarrow> callback option \<Rightarrow> nat \<times> state" where
  "proto_catch s me onRejected = proto_then s me None onRejected"

text \<open>\<open>typeof value === 'object' || isFunction(value)\<close> (line 241) and the read of
  \<open>value.then\<close> (line 250).\<close>

fun is_object_or_function :: "val \<Rightarrow> bool" where
  "is_object_or_function Undefined = False"
| "is_object_or_function (Bool _) = False"
| "is_object_or_function (Num _) = False"
| "is_object_or_function (Str _) = False"
| "is_object_or_function _ = True"

datatype then_read = ReadThrows val | NotAFunction | AFunction "then_action list"

fun read_then :: "val \<Rightarrow> then_read" where
  "read_then Null = ReadThrows HostTypeError"
| "read_then (Thenable (ThenGetterThrows e)) = ReadThrows e"
| "read_then (Thenable (ThenFunction acts)) = AFunction acts"
| "read_then _ = NotAFunction"

definition same_object_error :: val where
  "same_object_error = Error ''promise and value refer to the same object.''"

definition executor_error :: val where
  "executor_error = Error ''Promise resolver executor is not a function.''"

text \<open>\<open>values[index] = value\<close> on a JavaScript array: a write past the end extends the
  array, leaving holes.\<close>

definition array_set :: "val option list \<Rightarrow> nat \<Rightarrow> val \<Rightarrow> val option list" where
  "array_set xs i v =
     (if i < length xs then xs[i := Some v]
      else xs @ replicate (i - length xs) None @ [Some v])"

text \<open>
  \<open>resolvePromise\<close> (lines 221-298), \<open>adoptPromise\<close> (lines 197-218), the call
  \<open>then.call(value, ..., ...)\<close> of lines 256-273 together with the \<open>catch\<close> of lines
  278-289, the invocation of a function registered with \<open>then\<close>, and the two loops of
  \<open>flush\<close> (lines 121-186) call each other, and a loop of \<open>flush\<close> may run forever.
  They are therefore defined together, by recursion on a bound on the depth of the
  computation: \<open>run n c\<close> performs the call \<open>c\<close> and is \<open>OutOfFuel\<close> when the
  bound is reached.  Each body below is the source's function, with \<open>rec\<close> standing for
  the calls it makes.  A function without a \<open>return\<close> value returns \<open>undefined\<close>.
\<close>

datatype call =
    ResolvePromise state nat val
  | AdoptPromise state nat nat
  | ThenCall state nat "then_action list" bool bool
  | CallCallback state callback val
  | FlushPromises state "nat list"
  | FlushList state nat "nat list"

definition isFunction :: "callback option \<Rightarrow> bool" where
  "isFunction f = (case f of None \<Rightarrow> False | Some _ \<Rightarrow> True)"

definition resolvePromise_body ::
  "(call \<Rightarrow> val outcome) \<Rightarrow> state \<Rightarrow> nat \<Rightarrow> val \<Rightarrow> val outcome" where
  "resolvePromise_body rec s promise v =
     (if p_status (heap s promise) \<noteq> STATUS_PENDING then Done Undefined s
      else if v = PromiseRef promise then Threw same_object_error s
      else case v of
          PromiseRef target \<Rightarrow> rec (AdoptPromise s promise target)
        | _ \<Rightarrow>
           if is_object_or_function v then
             (case read_then v of
                ReadThrows e \<Rightarrow> Done Undefined (rejectPromise s promise e)
              | NotAFunction \<Rightarrow> Done Undefined (fulfill s promise v)
              | AFunction acts \<Rightarrow> rec (ThenCall s promise acts False False))
           else Done Undefined (fulfill s promise v))"

definition adoptPromise_body ::
  "(call \<Rightarrow> val outcome) \<Rightarrow> state \<Rightarrow> nat \<Rightarrow> nat \<Rightarrow> val outcome" where
  "adoptPromise_body rec s source target =
     (case p_status (heap s target) of
        STATUS_PENDING \<Rightarrow>
          Done Undefined
            (snd (proto_then s target (Some (AdoptResolve source)) (Some (AdoptReject source))))
      | STATUS_FULFILLED \<Rightarrow> rec (ResolvePromise s source (p_value (heap s target)))
      | STATUS_REJECTED \<Rightarrow> Done Undefined (rejectPromise s source (p_reason (heap s target))))"

text \<open>
  The body \<open>acts\<close> of a thenable's \<open>then\<close>, run with the two guarded callbacks of
  lines 259-272 and the flags \<open>isResolved\<close>, \<open>isRejected\<close>.  A raise leaves the
  \<open>try\<close> block and reaches line 282 with the flags as they are at that moment: what the
  first callback raises arrives there after \<open>isResolved\<close> has been set.
\<close>

definition then_call_body ::
  "(call \<Rightarrow> val outcome) \<Rightarrow> state \<Rightarrow> nat \<Rightarrow> then_action list \<Rightarrow> bool \<Rightarrow> bool \<Rightarrow> val outcome" where
  "then_call_body rec s promise acts isResolved isRejected =
     (case acts of
        [] \<Rightarrow> Done Undefined s
      | CallResolve v # rest \<Rightarrow>
          (if isResolved then rec (ThenCall s promise rest isResolved isRejected)
           else case rec (ResolvePromise s promise v) of
                  OutOfFuel \<Rightarrow> OutOfFuel
                | Threw e s' \<Rightarrow> Done Undefined s'
                | Done _ s' \<Rightarrow> rec (ThenCall s' promise rest True isRejected))
      | CallReject reason # rest \<Rightarrow>
          (if isRejected then rec (ThenCall s promise rest isResolved isRejected)
           else rec (ThenCall (rejectPromise s promise reason) promise rest isResolved True))
      | ThrowInThen e # rest \<Rightarrow>
          (if \<not> isResolved \<and> \<not> isRejected then Done Undefined (rejectPromise s promise e)
           else Done Undefined s))"

text \<open>
  A call \<open>func(param)\<close> of a function registered with \<open>then\<close>: a user function, the
  closures of lines 203-208, or the closures of lines 433-438 around \<open>onFulfilled\<close>
  (lines 414-423) and \<open>onRejected\<close> (lines 425-428).  The test \<open>promise.list === 0\<close>
  of line 104 compares an array with a number and is never true, so \<open>flush(result)\<close> is
  the loop over \<open>[result]\<close>.
\<close>

definition call_callback_body ::
  "(call \<Rightarrow> val outcome) \<Rightarrow> state \<Rightarrow> callback \<Rightarrow> val \<Rightarrow> val outcome" where
  "call_callback_body rec s func param =
     (case func of
        UserFn l body \<Rightarrow>
          (case body param of
             Return x \<Rightarrow> Done x (log_event s (Invoked l param))
           | Throw e \<Rightarrow> Threw e (log_event s (Invoked l param)))
      | AdoptResolve source \<Rightarrow> rec (ResolvePromise s source param)
      | AdoptReject source \<Rightarrow> Done Undefined (rejectPromise s source param)
      | AllFulfilled c index \<Rightarrow>
          (let cl = alls s c;
               cl' = cl\<lparr>a_values := array_set (a_values cl) index param,
                        a_couter := Suc (a_couter cl)\<rparr>;
               s1 = s\<lparr>alls := (alls s)(c := cl')\<rparr>
           in if a_couter cl' = a_length cl' then
                (case rec (ResolvePromise s1 (a_result cl') (ArrayRef c)) of
                   OutOfFuel \<Rightarrow> OutOfFuel
                 | Threw e s2 \<Rightarrow> Threw e s2
                 | Done _ s2 \<Rightarrow> rec (FlushPromises s2 [a_result cl']))
              else Done Undefined s1)
      | AllRejected c index \<Rightarrow>
          rec (FlushPromises (rejectPromise s (a_result (alls s c)) param) [a_result (alls s c)]))"

text \<open>The outer loop of \<open>flush\<close>, lines 121-186, on the work list \<open>promises\<close>.\<close>

definition flush_promises_body ::
  "(call \<Rightarrow> val outcome) \<Rightarrow> state \<Rightarrow> nat list \<Rightarrow> val outcome" where
  "flush_promises_body rec s promises =
     (case promises of
        [] \<Rightarrow> Done Undefined s
      | promise # rest \<Rightarrow>
          if p_status (heap s promise) = STATUS_PENDING then rec (FlushPromises s rest)
          else rec (FlushList s promise rest))"

text \<open>The choice of \<open>func\<close> and \<open>param\<close>, lines 148-159; \<open>None\<close> when \<open>func\<close>
  stays unset.\<close>

definition pick_func :: "promise \<Rightarrow> reaction \<Rightarrow> (callback \<times> val) option" where
  "pick_func promise item =
     (if p_status promise = STATUS_FULFILLED \<and> isFunction (r_resolve item)
      then Some (the (r_resolve item), p_value promise)
      else if p_status promise = STATUS_REJECTED \<and> isFunction (r_reject item)
      then Some (the (r_reject item), p_reason promise)
      else None)"

text \<open>The inner loop of \<open>flush\<close>, lines 129-185, on \<open>promise.list\<close>; \<open>promises\<close> is the
  rest of the work list.\<close>

definition flush_list_body ::
  "(call \<Rightarrow> val outcome) \<Rightarrow> state \<Rightarrow> nat \<Rightarrow> nat list \<Rightarrow> val outcome" where
  "flush_list_body rec s promise promises =
     (case p_list (heap s promise) of
        [] \<Rightarrow> rec (FlushPromises s promises)
      | item # rest \<Rightarrow>
         (let s1 = set_promise s promise ((heap s promise)\<lparr>p_list := rest\<rparr>);
              itemPromise = r_promise item
          in case pick_func (heap s1 promise) item of
               Some (f, param) \<Rightarrow>
                 (case rec (CallCallback s1 f param) of
                    OutOfFuel \<Rightarrow> OutOfFuel
                  | Threw e s2 \<Rightarrow>
                      rec (FlushList (rejectPromise s2 itemPromise e) promise
                             (promises @ [itemPromise]))
                  | Done x s2 \<Rightarrow>
                     (case rec (ResolvePromise s2 itemPromise x) of
                        OutOfFuel \<Rightarrow> OutOfFuel
                      | Threw e s3 \<Rightarrow>
                          rec (FlushList (rejectPromise s3 itemPromise e) promise
                                 (promises @ [itemPromise]))
                      | Done _ s3 \<Rightarrow> rec (FlushList s3 promise (promises @ [itemPromise]))))
             | None \<Rightarrow>
                 (case rec (AdoptPromise s1 itemPromise promise) of
                    OutOfFuel \<Rightarrow> OutOfFuel
                  | Threw e s2 \<Rightarrow> Threw e s2
                  | Done _ s2 \<Rightarrow> rec (FlushList s2 promise (promises @ [itemPromise])))))"

primrec run :: "nat \<Rightarrow> call \<Rightarrow> val outcome" where
  "run 0 c = OutOfFuel"
| "run (Suc n) c =
     (case c of
        ResolvePromise s promise v \<Rightarrow> resolvePromise_body (run n) s promise v
      | AdoptPromise s source target \<Rightarrow> adoptPromise_body (run n) s source target
      | ThenCall s promise acts isResolved isRejected \<Rightarrow>
          then_call_body (run n) s promise acts isResolved isRejected
      | CallCallback s func param \<Rightarrow> call_callback_body (run n) s func param
      | FlushPromises s promises \<Rightarrow> flush_promises_body (run n) s promises
      | FlushList s promise promises \<Rightarrow> flush_list_body (run n) s promise promises)"

definition resolvePromise :: "nat \<Rightarrow> state \<Rightarrow> nat \<Rightarrow> val \<Rightarrow> val outcome" where
  "resolvePromise n s promise v = run n (ResolvePromise s promise v)"

definition adoptPromise :: "nat \<Rightarrow> state \<Rightarrow> nat \<Rightarrow> nat \<Rightarrow> val outcome" where
  "adoptPromise n s source target = run n (AdoptPromise s source target)"

definition call_callback :: "nat \<Rightarrow> state \<Rightarrow> callback \<Rightarrow> val \<Rightarrow> val outcome" where
  "call_callback n s func param = run n (CallCallback s func param)"

definition then_call ::
  "nat \<Rightarrow> state \<Rightarrow> nat \<Rightarrow> then_action list \<Rightarrow> bool \<Rightarrow> bool \<Rightarrow> val outcome" where
  "then_call n s promise acts isResolved isRejected =
     run n (ThenCall s promise acts isResolved isRejected)"

definition flush_promises :: "nat \<Rightarrow> state \<Rightarrow> nat list \<Rightarrow> val outcome" where
  "flush_promises n s promises = run n (FlushPromises s promises)"

definition flush_list :: "nat \<Rightarrow> state \<Rightarrow> nat \<Rightarrow> nat list \<Rightarrow> val outcome" where
  "flush_list n s promise promises = run n (FlushList s promise promises)"

text \<open>\<open>flush\<close>, lines 102-188.\<close>

definition flush :: "nat \<Rightarrow> state \<Rightarrow> nat \<Rightarrow> val outcome" where
  "flush n s promise = run n (FlushPromises s [promise])"

text \<open>
  The two functions the constructor hands to the executor (lines 340-347).  What
  \<open>resolvePromise\<close> raises leaves the function before \<open>flush\<close> is reached.
\<close>

definition resolve_callback :: "nat \<Rightarrow> state \<Rightarrow> nat \<Rightarrow> val \<Rightarrow> val outcome" where
  "resolve_callback n s me v =
     (case resolvePromise n s me v of
        OutOfFuel \<Rightarrow> OutOfFuel
      | Threw e s' \<Rightarrow> Threw e s'
      | Done _ s' \<Rightarrow> flush n s' me)"

definition reject_callback :: "nat \<Rightarrow> state \<Rightarrow> nat \<Rightarrow> val \<Rightarrow> val outcome" where
  "reject_callback n s me reason = flush n (rejectPromise s me reason) me"

text \<open>
  The argument of the constructor: a value that is not a function, or a function whose
  body is a script of calls to the two callbacks, possibly ended by a raise.  The body does
  not catch what the callbacks raise.  A labelled function has its invocations recorded;
  the source's own functions (\<open>noop\<close>, the executors of \<open>Promise.resolve\<close> and
  \<open>Promise.reject\<close>) carry no label.
\<close>

datatype exec_action = ExecResolve val | ExecReject val | ExecThrow val

datatype initializer = NotCallable val | Function "nat option" "exec_action list"

fun run_executor :: "nat \<Rightarrow> state \<Rightarrow> nat \<Rightarrow> exec_action list \<Rightarrow> val outcome" where
  "run_executor n s me [] = Done Undefined s"
| "run_executor n s me (ExecResolve v # acts) =
     (case resolve_callback n s me v of
        OutOfFuel \<Rightarrow> OutOfFuel
      | Threw e s' \<Rightarrow> Threw e s'
      | Done _ s' \<Rightarrow> run_executor n s' me acts)"
| "run_executor n s me (ExecReject reason # acts) =
     (case reject_callback n s me reason of
        OutOfFuel \<Rightarrow> OutOfFuel
      | Threw e s' \<Rightarrow> Threw e s'
      | Done _ s' \<Rightarrow> run_executor n s' me acts)"
| "run_executor n s me (ExecThrow e # acts) = Threw e s"

definition call_executor :: "nat \<Rightarrow> state \<Rightarrow> nat \<Rightarrow> nat option \<Rightarrow> exec_action list \<Rightarrow> val outcome" where
  "call_executor n s me label acts =
     run_executor n (case label of None \<Rightarrow> s | Some l \<Rightarrow> log_event s (ExecutorInvoked l)) me acts"

text \<open>
  The constructor, lines 323-350.  \<open>new_Promise\<close> is the expression
  \<open>new Promise(executor)\<close>: the body run on a new object, which is the value of the
  expression unless the body raises.  The new object takes the next free address once
  line 335 initialises it; an object abandoned by the raise of line 332 is not reachable
  and leaves no mark on the state.  \<open>Promise_call\<close> is a call of the function with
  an arbitrary \<open>this\<close>; a plain call \<open>Promise(executor)\<close> in strict mode has
  \<open>this = undefined\<close>.  With an instance as \<open>this\<close> the body sets its status and
  its list again (lines 335-337) and the call returns \<open>undefined\<close>.
\<close>

definition new_Promise :: "nat \<Rightarrow> state \<Rightarrow> initializer \<Rightarrow> val outcome" where
  "new_Promise n s executor =
     (case executor of
        NotCallable _ \<Rightarrow> Threw executor_error s
      | Function label acts \<Rightarrow>
          (let (me, s1) = Promise_noop s
           in case call_executor n s1 me label acts of
                OutOfFuel \<Rightarrow> OutOfFuel
              | Threw e s' \<Rightarrow> Threw e s'
              | Done _ s' \<Rightarrow> Done (PromiseRef me) s'))"

definition isPromise :: "val \<Rightarrow> bool" where
  "isPromise p = (case p of PromiseRef _ \<Rightarrow> True | _ \<Rightarrow> False)"

definition Promise_call :: "nat \<Rightarrow> state \<Rightarrow> val \<Rightarrow> initializer \<Rightarrow> val outcome" where
  "Promise_call n s this executor =
     (if \<not> isPromise this then new_Promise n s executor
      else case executor of
             NotCallable _ \<Rightarrow> Threw executor_error s
           | Function label acts \<Rightarrow>
               (case this of
                  PromiseRef me \<Rightarrow>
                    call_executor n
                      (set_promise s me ((heap s me)\<lparr>p_status := STATUS_PENDING, p_list := []\<rparr>))
                      me label acts
                | _ \<Rightarrow> Done Undefined s))"

text \<open>\<open>Promise.all\<close>, lines 403-445; \<open>all_loop\<close> is the \<open>for\<close> loop of lines 430-441
  from index \<open>i\<close> on, over the elements not yet visited.\<close>

fun all_loop :: "state \<Rightarrow> nat \<Rightarrow> nat \<Rightarrow> nat list \<Rightarrow> state" where
  "all_loop s c i [] = s"
| "all_loop s c i (p # ps) =
     all_loop (snd (proto_then s p (Some (AllFulfilled c i)) (Some (AllRejected c i)))) c (Suc i) ps"

definition Promise_all :: "state \<Rightarrow> nat list \<Rightarrow> nat \<times> state" where
  "Promise_all s promises =
     (let (result, s1) = Promise_noop s;
          c = next_all s1;
          s2 = s1\<lparr>alls := (alls s1)(c := \<lparr>a_result = result, a_length = length promises,
                                            a_couter = 0, a_values = []\<rparr>),
                  next_all := Suc c\<rparr>
      in (result, all_loop s2 c 0 promises))"

text \<open>\<open>Promise.resolve\<close> and \<open>Promise.reject\<close>, lines 453-469.\<close>

definition Promise_resolve :: "nat \<Rightarrow> state \<Rightarrow> val \<Rightarrow> val outcome" where
  "Promise_resolve n s v = new_Promise n s (Function None [ExecResolve v])"

definition Promise_reject :: "nat \<Rightarrow> state \<Rightarrow> val \<Rightarrow> val outcome" where
  "Promise_reject n s reason = new_Promise n s (Function None [ExecReject reason])"

text \<open>The host runs the oldest function handed to \<open>nextTick\<close>.\<close>

definition run_tick :: "nat \<Rightarrow> state \<Rightarrow> val outcome" where
  "run_tick n s =
     (case ticks s of
        [] \<Rightarrow> Done Undefined s
      | me # rest \<Rightarrow> flush n (s\<lparr>ticks := rest\<rparr>) me)"

section \<open>Auxiliary definitions for the properties\<close>

text \<open>The state a call starts from and the state an outcome ends in.\<close>

fun call_state :: "call \<Rightarrow> state" where
  "call_state (ResolvePromise s _ _) = s"
| "call_state (AdoptPromise s _ _) = s"
| "call_state (ThenCall s _ _ _ _) = s"
| "call_state (CallCallback s _ _) = s"
| "call_state (FlushPromises s _) = s"
| "call_state (FlushList s _ _) = s"

definition final :: "'a outcome \<Rightarrow> state" where
  "final r = (case r of OutOfFuel \<Rightarrow> init_state | Threw e s \<Rightarrow> s | Done x s \<Rightarrow> s)"

fun raised :: "'a outcome \<Rightarrow> val option" where
  "raised (Threw e s) = Some e"
| "raised _ = None"

fun returned :: "'a outcome \<Rightarrow> bool" where
  "returned (Done x s) = True"
| "returned _ = False"

definition holds_after :: "(state \<Rightarrow> state \<Rightarrow> bool) \<Rightarrow> state \<Rightarrow> 'a outcome \<Rightarrow> bool" where
  "holds_after R s r = (case r of OutOfFuel \<Rightarrow> True | Threw e s' \<Rightarrow> R s s' | Done x s' \<Rightarrow> R s s')"

text \<open>A sequence of further calls of the two settlement routines on one promise.\<close>

datatype settle_call = CallResolvePromise val | CallRejectPromise val

fun settle_again :: "nat \<Rightarrow> state \<Rightarrow> nat \<Rightarrow> settle_call list \<Rightarrow> val outcome" where
  "settle_again n s promise [] = Done Undefined s"
| "settle_again n s promise (CallResolvePromise v # calls) =
     (case resolvePromise n s promise v of
        OutOfFuel \<Rightarrow> OutOfFuel
      | Threw e s' \<Rightarrow> Threw e s'
      | Done _ s' \<Rightarrow> settle_again n s' promise calls)"
| "settle_again n s promise (CallRejectPromise reason # calls) =
     settle_again n (rejectPromise s promise reason) promise calls"

text \<open>What every call does to the record of invocations, to the queue of \<open>nextTick\<close>
  and to the next free address: it appends invocations of registered functions, leaves the
  queue alone and never lowers the address.\<close>

fun is_invocation :: "event \<Rightarrow> bool" where
  "is_invocation (Invoked l v) = True"
| "is_invocation (ExecutorInvoked l) = False"

definition extends :: "state \<Rightarrow> state \<Rightarrow> bool" where
  "extends s s' \<longleftrightarrow>
     (\<exists>evs. trace s' = trace s @ evs \<and> list_all is_invocation evs) \<and>
     ticks s' = ticks s \<and> next_promise s \<le> next_promise s'"

text \<open>\<open>typeof executor === 'function'\<close> (line 331), and the state in which the
  executor starts to run: the new object is initialised (lines 335-337) and the invocation
  of a labelled executor is recorded.\<close>

fun callable :: "initializer \<Rightarrow> bool" where
  "callable (NotCallable v) = False"
| "callable (Function label acts) = True"

definition entered :: "state \<Rightarrow> nat option \<Rightarrow> state" where
  "entered s label =
     (case label of
        None \<Rightarrow> snd (Promise_noop s)
      | Some l \<Rightarrow> log_event (snd (Promise_noop s)) (ExecutorInvoked l))"

text \<open>The values \<open>resolvePromise\<close> stores as they are (lines 293-296): not a promise,
  and an object only if its \<open>then\<close> member can be read and is not a function.\<close>

definition inert :: "val \<Rightarrow> bool" where
  "inert v \<longleftrightarrow> \<not> isPromise v \<and> read_then v = NotAFunction"

text \<open>
  An invariant of the states the program reaches: the value of a fulfilled promise is
  inert (\<open>resolvePromise\<close> adopts a promise or a thenable instead of storing it).  In such a state
  only two kinds of call can raise: \<open>resolvePromise\<close> of a promise with itself, and the
  invocation of a registered function.
\<close>

definition plain_values :: "state \<Rightarrow> bool" where
  "plain_values s \<longleftrightarrow>
     (\<forall>a. p_status (heap s a) = STATUS_FULFILLED \<longrightarrow> inert (p_value (heap s a)))"

definition keeps_plain_values :: "state \<Rightarrow> state \<Rightarrow> bool" where
  "keeps_plain_values s s' \<longleftrightarrow> (plain_values s \<longrightarrow> plain_values s')"

fun may_raise :: "call \<Rightarrow> bool" where
  "may_raise (ResolvePromise s promise v) = (v = PromiseRef promise)"
| "may_raise (CallCallback s func param) = True"
| "may_raise _ = False"

text \<open>
  The calls of \<open>resolvePromise\<close>, \<open>adoptPromise\<close> and a thenable's \<open>then\<close> call
  only each other.  They invoke no registered function, and they leave every promise that is
  already settled as it is.  A call halts when some bound lets it finish.
\<close>

fun resolve_call :: "call \<Rightarrow> bool" where
  "resolve_call (ResolvePromise s promise v) = True"
| "resolve_call (AdoptPromise s source target) = True"
| "resolve_call (ThenCall s promise acts isResolved isRejected) = True"
| "resolve_call _ = False"

definition untouched :: "state \<Rightarrow> state \<Rightarrow> bool" where
  "untouched s s' \<longleftrightarrow>
     trace s' = trace s \<and> next_promise s \<le> next_promise s' \<and>
     (\<forall>a<next_promise s. p_status (heap s a) \<noteq> STATUS_PENDING \<longrightarrow> heap s' a = heap s a)"

definition halts :: "call \<Rightarrow> bool" where
  "halts c \<longleftrightarrow> (\<exists>n. run n c \<noteq> OutOfFuel)"



text \<open>
  For a settled promise: the member of a reaction that \<open>flush\<close> looks at (lines 148-159)
  and the value it passes.  A member registered by a user through \<open>then\<close> is absent or
  a user function, one registered by \<open>adoptPromise\<close> is a closure of lines 203-208;
  \<open>invocation\<close> is what invoking a member adds to the record, and \<open>delivered\<close>
  relates the states before and after a reaction has been handled.
\<close>

fun simple_member :: "callback option \<Rightarrow> bool" where
  "simple_member None = True"
| "simple_member (Some (UserFn l g)) = True"
| "simple_member (Some (AdoptResolve source)) = True"
| "simple_member (Some (AdoptReject source)) = True"
| "simple_member (Some _) = False"

fun invocation :: "val \<Rightarrow> callback option \<Rightarrow> event list" where
  "invocation x (Some (UserFn l g)) = [Invoked l x]"
| "invocation x _ = []"

definition delivered :: "event list \<Rightarrow> state \<Rightarrow> state \<Rightarrow> bool" where
  "delivered evs s s' \<longleftrightarrow>
     trace s' = trace s @ evs \<and> next_promise s \<le> next_promise s' \<and>
     (\<forall>a<next_promise s. p_status (heap s a) \<noteq> STATUS_PENDING \<longrightarrow> heap s' a = heap s a)"

definition member_for :: "promise \<Rightarrow> reaction \<Rightarrow> callback option" where
  "member_for promise item =
     (if p_status promise = STATUS_FULFILLED then r_resolve item else r_reject item)"

definition settled_with :: "promise \<Rightarrow> val" where
  "settled_with promise =
     (if p_status promise = STATUS_FULFILLED then p_value promise else p_reason promise)"

text \<open>
  Executors whose body only calls the two callbacks, the first with values that
  \<open>resolvePromise\<close> stores as they are: they raise nothing, and only their first call
  has an effect, which \<open>settle_first\<close> gives.
\<close>

fun simple_action :: "exec_action \<Rightarrow> bool" where
  "simple_action (ExecResolve v) = inert v"
| "simple_action (ExecReject reason) = True"
| "simple_action (ExecThrow e) = False"

fun settle_first :: "state \<Rightarrow> nat \<Rightarrow> exec_action list \<Rightarrow> state" where
  "settle_first s me [] = s"
| "settle_first s me (ExecResolve v # acts) = fulfill s me v"
| "settle_first s me (ExecReject reason # acts) = rejectPromise s me reason"
| "settle_first s me (ExecThrow e # acts) = s"

text \<open>
  The calls that resolve the promise \<open>p\<close> with something other than itself, and what
  they keep: the list of reactions of \<open>p\<close>, once \<open>p\<close> is allocated.
\<close>

fun subject :: "call \<Rightarrow> nat \<Rightarrow> bool" where
  "subject (ResolvePromise s q v) p = (q = p)"
| "subject (AdoptPromise s source target) p = (source = p \<and> target \<noteq> p)"
| "subject (ThenCall s q acts a b) p = (q = p)"
| "subject (CallCallback s f x) p = False"
| "subject (FlushPromises s ps) p = False"
| "subject (FlushList s q ps) p = False"

definition same_list :: "nat \<Rightarrow> state \<Rightarrow> state \<Rightarrow> bool" where
  "same_list p s s' \<longleftrightarrow>
     (p < next_promise s \<longrightarrow>
        p < next_promise s' \<and> p_list (heap s' p) = p_list (heap s p))"

section \<open>Scenarios\<close>

text \<open>\<open>var f = Promise.resolve(1)\<close> in the initial state: \<open>f\<close> is promise 0.\<close>

definition fulfilled_state :: state where
  "fulfilled_state = final (Promise_resolve 5 init_state (Num 1))"

text \<open>\<open>var f = new Promise(function (resolve, reject) { keep = resolve; })\<close> in the
  initial state: \<open>f\<close> is promise 0 and stays pending; the program keeps the callback.\<close>

definition pending_state :: state where
  "pending_state = final (new_Promise 5 init_state (Function (Some 0) []))"

text \<open>Then \<open>f.then(g)\<close> with a user function \<open>g\<close> (label 1) that returns its argument;
  and what the later call \<open>keep(7)\<close> gives.\<close>

definition waiting_state :: state where
  "waiting_state = snd (proto_then pending_state 0 (Some (UserFn 1 Return)) None)"

definition keep_7 :: "val outcome" where
  "keep_7 = resolve_callback 10 waiting_state 0 (Num 7)"

text \<open>In \<open>pending_state\<close>, the call \<open>keep(f)\<close>.\<close>

definition keep_self :: "val outcome" where
  "keep_self = resolve_callback 10 pending_state 0 (PromiseRef 0)"

text \<open>
  In \<open>pending_state\<close> (\<open>q\<close> is promise 0, \<open>keepq\<close> its callback):
  \<open>var f = new Promise(function (resolve) { keepf = resolve; })\<close> (promise 1), then
  \<open>keepf(t)\<close> where \<open>t.then = function (res, rej) { res(q); rej('x'); }\<close>, and later
  \<open>keepq(5)\<close>.
\<close>

definition thenable_state0 :: state where
  "thenable_state0 = final (new_Promise 5 pending_state (Function (Some 1) []))"

definition thenable_call :: "val outcome" where
  "thenable_call =
     resolve_callback 10 thenable_state0 1
       (Thenable (ThenFunction [CallResolve (PromiseRef 0), CallReject (Str ''x'')]))"

definition thenable_later :: "val outcome" where
  "thenable_later = resolve_callback 10 (final thenable_call) 0 (Num 5)"

text \<open>
  In \<open>pending_state\<close> (\<open>q\<close> is promise 0, \<open>keepq\<close> its callback):
  \<open>var a = new Promise(function (resolve) { resolve(q); })\<close> (promise 1),
  \<open>var all = Promise.all([a])\<close> (promise 3), and later \<open>keepq(5)\<close>.
\<close>

definition all_state1 :: state where
  "all_state1 = final (new_Promise 10 pending_state (Function (Some 1) [ExecResolve (PromiseRef 0)]))"

definition all_state2 :: state where
  "all_state2 = snd (Promise_all all_state1 [1])"

definition all_later :: "val outcome" where
  "all_later = resolve_callback 10 all_state2 0 (Num 5)"

text \<open>In \<open>pending_state\<close>: \<open>var d = f.then(function () { return d; })\<close> (\<open>d\<close> is
  promise 1), and then the state inside \<open>keep(7)\<close> when \<open>resolvePromise\<close> has returned
  and \<open>flush\<close> is about to start.\<close>

definition returns_itself :: "val \<Rightarrow> ret" where
  "returns_itself x = Return (PromiseRef 1)"

definition cyclic_state :: state where
  "cyclic_state =
     final (resolvePromise 5
       (snd (proto_then pending_state 0 (Some (UserFn 1 returns_itself)) None)) 0 (Num 7))"

text \<open>In \<open>fulfilled_state\<close>: \<open>f.then(g)\<close> with a user function \<open>g\<close> (label 1).\<close>

definition late_then :: state where
  "late_then = snd (proto_then fulfilled_state 0 (Some (UserFn 1 Return)) None)"

text \<open>\<open>new Promise(function (resolve) { resolve(1); })\<close> in the initial state, with an
  executor labelled 3.\<close>

definition executor_state :: state where
  "executor_state = final (new_Promise 5 init_state (Function (Some 3) [ExecResolve (Num 1)]))"

text \<open>In \<open>pending_state\<close>: \<open>f.then(g1); f.then(g2)\<close> where \<open>g1\<close> (label 1) raises
  \<open>'boom'\<close> and \<open>g2\<close> (label 2) returns its argument; and then the state inside \<open>keep(7)\<close>
  when \<open>resolvePromise\<close> has returned and \<open>flush\<close> is about to start.\<close>

definition always_raises :: "val \<Rightarrow> ret" where
  "always_raises x = Throw (Str ''boom'')"

definition raising_state :: state where
  "raising_state =
     final (resolvePromise 5
       (snd (proto_then (snd (proto_then pending_state 0 (Some (UserFn 1 always_raises)) None))
          0 (Some (UserFn 2 Return)) None))
       0 (Num 7))"

text \<open>In \<open>pending_state\<close>: \<open>f.then(g1); f.then(g2); f.then(g3)\<close>, where \<open>g2\<close> raises.\<close>

definition three_waiting :: state where
  "three_waiting =
     snd (proto_then
       (snd (proto_then
          (snd (proto_then pending_state 0 (Some (UserFn 1 Return)) None))
          0 (Some (UserFn 2 always_raises)) None))
       0 (Some (UserFn 3 Return)) None)"

text \<open>
  The examples of the specification.  \<open>Promise.all([Promise.resolve(1), Promise.resolve(2)])\<close>
  followed by two turns of the host's queue; \<open>Promise.all([pendingForever, Promise.reject('x')])\<close>
  followed by one turn; \<open>Promise.resolve(1).then(x => x + 1).then(x => x + 1)\<close> followed by
  one turn; \<open>Promise.reject('e').catch(r => r + '!')\<close> followed by one turn.
\<close>

definition all_success1 :: state where
  "all_success1 = final (Promise_resolve 5 fulfilled_state (Num 2))"

definition all_success2 :: state where
  "all_success2 = snd (Promise_all all_success1 [0, 1])"

definition all_success3 :: state where
  "all_success3 = final (run_tick 10 all_success2)"

definition all_success4 :: state where
  "all_success4 = final (run_tick 10 all_success3)"

definition short_circuit1 :: state where
  "short_circuit1 = final (Promise_reject 5 pending_state (Str ''x''))"

definition short_circuit2 :: state where
  "short_circuit2 = snd (Promise_all short_circuit1 [0, 1])"

definition short_circuit3 :: state where
  "short_circuit3 = final (run_tick 10 short_circuit2)"

fun increment :: "val \<Rightarrow> ret" where
  "increment (Num i) = Return (Num (i + 1))"
| "increment v = Throw v"

definition chain1 :: state where
  "chain1 = snd (proto_then fulfilled_state 0 (Some (UserFn 1 increment)) None)"

definition chain2 :: state where
  "chain2 = snd (proto_then chain1 1 (Some (UserFn 2 increment)) None)"

definition chain3 :: state where
  "chain3 = final (run_tick 10 chain2)"

fun exclaim :: "val \<Rightarrow> ret" where
  "exclaim (Str r) = Return (Str (r @ ''!''))"
| "exclaim v = Throw v"

definition catch1 :: state where
  "catch1 = final (Promise_reject 5 init_state (Str ''e''))"

definition catch2 :: state where
  "catch2 = snd (proto_catch catch1 0 (Some (UserFn 1 exclaim)))"

definition catch3 :: state where
  "catch3 = final (run_tick 10 catch2)"

text \<open>In \<open>pending_state\<close>: \<open>keep({then: function (res, rej) { res(f); }})\<close>, a thenable
  that resolves \<open>f\<close> with \<open>f\<close> itself.\<close>

definition thenable_self :: "val outcome" where
  "thenable_self =
     resolve_callback 10 pending_state 0 (Thenable (ThenFunction [CallResolve (PromiseRef 0)]))"

text \<open>
  In \<open>all_state1\<close> (\<open>q\<close> is promise 0 and pending, \<open>a\<close> is promise 1 and was resolved
  with \<open>q\<close>): \<open>a.then(g1); a.then(g2); a.then(g3)\<close> with three user functions, and later
  \<open>keepq(5)\<close>.
\<close>

definition adopted_waiting :: state where
  "adopted_waiting =
     snd (proto_then
       (snd (proto_then
          (snd (proto_then all_state1 1 (Some (UserFn 1 Return)) None))
          1 (Some (UserFn 2 Return)) None))
       1 (Some (UserFn 3 Return)) None)"

definition adopted_later :: "val outcome" where
  "adopted_later = resolve_callback 10 adopted_waiting 0 (Num 5)"

text \<open>
  \<open>var f = Promise(function (resolve, reject) { keep = resolve; })\<close>, a plain call in the
  initial state; then \<open>f.then(g)\<close> with a user function \<open>g\<close> (label 1), and \<open>keep(7)\<close>.
\<close>

definition plain_call :: "val outcome" where
  "plain_call = Promise_call 5 init_state Undefined (Function (Some 0) [])"

definition plain_waiting :: state where
  "plain_waiting = snd (proto_then (final plain_call) 0 (Some (UserFn 1 Return)) None)"

definition plain_keep_7 :: "val outcome" where
  "plain_keep_7 = resolve_callback 10 plain_waiting 0 (Num 7)"

section \<open>Evaluation\<close>

lemma run_numeral:
  "run (numeral k) c =
     (case c of
        ResolvePromise s promise v \<Rightarrow> resolvePromise_body (run (pred_numeral k)) s promise v
      | AdoptPromise s source target \<Rightarrow> adoptPromise_body (run (pred_numeral k)) s source target
      | ThenCall s promise acts isResolved isRejected \<Rightarrow>
          then_call_body (run (pred_numeral k)) s promise acts isResolved isRejected
      | CallCallback s func param \<Rightarrow> call_callback_body (run (pred_numeral k)) s func param
      | FlushPromises s promises \<Rightarrow> flush_promises_body (run (pred_numeral k)) s promises
      | FlushList s promise promises \<Rightarrow> flush_list_body (run (pred_numeral k)) s promise promises)"
  by (simp add: numeral_eq_Suc)

lemmas eval_defs = run_numeral resolvePromise_def adoptPromise_def call_callback_def flush_def
  resolvePromise_body_def adoptPromise_body_def then_call_body_def call_callback_body_def
  flush_promises_body_def flush_list_body_def pick_func_def isFunction_def
  resolve_callback_def reject_callback_def call_executor_def new_Promise_def Promise_call_def
  Promise_all_def Promise_resolve_def Promise_reject_def run_tick_def
  Promise_noop_def proto_then_def proto_catch_def set_promise_def log_event_def nextTick_def
  rejectPromise_def fulfill_def empty_promise_def init_state_def array_set_def final_def
  isPromise_def same_object_error_def executor_error_def Let_def

lemma resolvePromise_settled:
  "p_status (heap s promise) \<noteq> STATUS_PENDING \<Longrightarrow>
   resolvePromise (Suc n) s promise v = Done Undefined s"
  by (simp add: resolvePromise_def resolvePromise_body_def)

lemma rejectPromise_settled:
  "p_status (heap s promise) \<noteq> STATUS_PENDING \<Longrightarrow> rejectPromise s promise reason = s"
  by (simp add: rejectPromise_def)

section \<open>Basic facts\<close>

subsection \<open>More fuel does not change an outcome\<close>

lemma resolvePromise_body_mono:
  assumes "\<And>c. rec c \<noteq> OutOfFuel \<Longrightarrow> rec' c = rec c"
    and "resolvePromise_body rec s p v \<noteq> OutOfFuel"
  shows "resolvePromise_body rec' s p v = resolvePromise_body rec s p v"
  using assms(2) unfolding resolvePromise_body_def
  by (auto simp: assms(1) split: val.splits then_read.splits if_splits)

lemma adoptPromise_body_mono:
  assumes "\<And>c. rec c \<noteq> OutOfFuel \<Longrightarrow> rec' c = rec c"
    and "adoptPromise_body rec s p v \<noteq> OutOfFuel"
  shows "adoptPromise_body rec' s p v = adoptPromise_body rec s p v"
  using assms(2) unfolding adoptPromise_body_def
  by (auto simp: assms(1) split: status.splits)

lemma then_call_body_mono:
  assumes "\<And>c. rec c \<noteq> OutOfFuel \<Longrightarrow> rec' c = rec c"
    and "then_call_body rec s p acts a b \<noteq> OutOfFuel"
  shows "then_call_body rec' s p acts a b = then_call_body rec s p acts a b"
  using assms(2) unfolding then_call_body_def
  by (auto simp: assms(1) split: list.splits then_action.splits outcome.splits if_splits)

lemma call_callback_body_mono:
  assumes "\<And>c. rec c \<noteq> OutOfFuel \<Longrightarrow> rec' c = rec c"
    and "call_callback_body rec s f x \<noteq> OutOfFuel"
  shows "call_callback_body rec' s f x = call_callback_body rec s f x"
  using assms(2) unfolding call_callback_body_def
  by (auto simp: assms(1) Let_def split: callback.splits ret.splits outcome.splits if_splits)

lemma flush_promises_body_mono:
  assumes "\<And>c. rec c \<noteq> OutOfFuel \<Longrightarrow> rec' c = rec c"
    and "flush_promises_body rec s ps \<noteq> OutOfFuel"
  shows "flush_promises_body rec' s ps = flush_promises_body rec s ps"
  using assms(2) unfolding flush_promises_body_def
  by (auto simp: assms(1) split: list.splits if_splits)

lemma flush_list_body_mono:
  assumes "\<And>c. rec c \<noteq> OutOfFuel \<Longrightarrow> rec' c = rec c"
    and "flush_list_body rec s p ps \<noteq> OutOfFuel"
  shows "flush_list_body rec' s p ps = flush_list_body rec s p ps"
  using assms(2) unfolding flush_list_body_def Let_def
  by (auto simp: assms(1) split: list.splits option.splits outcome.splits prod.splits)

lemma run_Suc_mono: "run n c \<noteq> OutOfFuel \<Longrightarrow> run (Suc n) c = run n c"
proof (induction n arbitrary: c)
  case 0
  then show ?case by simp
next
  case (Suc n)
  have ih: "\<And>c. run n c \<noteq> OutOfFuel \<Longrightarrow> run (Suc n) c = run n c" by (rule Suc.IH)
  show ?case
  proof (cases c)
    case (ResolvePromise s p v)
    with Suc.prems show ?thesis using resolvePromise_body_mono[of "run n" "run (Suc n)", OF ih] by simp
  next
    case (AdoptPromise s p t)
    with Suc.prems show ?thesis using adoptPromise_body_mono[of "run n" "run (Suc n)", OF ih] by simp
  next
    case (ThenCall s p acts a b)
    with Suc.prems show ?thesis using then_call_body_mono[of "run n" "run (Suc n)", OF ih] by simp
  next
    case (CallCallback s f x)
    with Suc.prems show ?thesis using call_callback_body_mono[of "run n" "run (Suc n)", OF ih] by simp
  next
    case (FlushPromises s ps)
    with Suc.prems show ?thesis using flush_promises_body_mono[of "run n" "run (Suc n)", OF ih] by simp
  next
    case (FlushList s p ps)
    with Suc.prems show ?thesis using flush_list_body_mono[of "run n" "run (Suc n)", OF ih] by simp
  qed
qed

lemma run_mono: "run n c \<noteq> OutOfFuel \<Longrightarrow> n \<le> m \<Longrightarrow> run m c = run n c"
proof (induction m)
  case 0
  then show ?case by simp
next
  case (Suc m)
  show ?case
  proof (cases "n = Suc m")
    case True
    then show ?thesis by simp
  next
    case False
    with Suc.prems have "n \<le> m" by simp
    with Suc have eq: "run m c = run n c" by simp
    with Suc.prems have "run m c \<noteq> OutOfFuel" by simp
    from run_Suc_mono[OF this] eq show ?thesis by simp
  qed
qed

subsection \<open>Relations kept by every call\<close>

text \<open>
  A reflexive and transitive relation on states that every elementary step respects holds
  between the state a call starts from and the state it ends in.
\<close>

lemma holds_after_simps [simp]:
  "holds_after R s OutOfFuel" "holds_after R s (Threw e s') = R s s'" "holds_after R s (Done x s') = R s s'"
  by (simp_all add: holds_after_def)

lemma holds_after_trans:
  assumes "transp R" "R s s1" "holds_after R s1 r"
  shows "holds_after R s r"
  using assms by (cases r) (auto dest: transpD)

lemma holds_after_try:
  assumes "transp R"
    and "holds_after R s r"
    and "\<And>e s'. r = Threw e s' \<Longrightarrow> holds_after R s' (h e s')"
    and "\<And>x s'. r = Done x s' \<Longrightarrow> holds_after R s' (k x s')"
  shows "holds_after R s (case r of OutOfFuel \<Rightarrow> OutOfFuel | Threw e s' \<Rightarrow> h e s' | Done x s' \<Rightarrow> k x s')"
proof (cases r)
  case OutOfFuel
  then show ?thesis by simp
next
  case (Threw e s')
  with assms(2) have "R s s'" by simp
  from holds_after_trans[OF assms(1) this assms(3)[OF Threw]] Threw show ?thesis by simp
next
  case (Done x s')
  with assms(2) have "R s s'" by simp
  from holds_after_trans[OF assms(1) this assms(4)[OF Done]] Done show ?thesis by simp
qed

lemma rec_cases:
  assumes "\<And>c. holds_after R (call_state c) (rec c)"
  shows "holds_after R s (rec (ResolvePromise s p v))"
    "holds_after R s (rec (AdoptPromise s p t))"
    "holds_after R s (rec (ThenCall s p acts a b))"
    "holds_after R s (rec (CallCallback s f x))"
    "holds_after R s (rec (FlushPromises s ps))"
    "holds_after R s (rec (FlushList s p ps))"
  using assms[of "ResolvePromise s p v"] assms[of "AdoptPromise s p t"]
    assms[of "ThenCall s p acts a b"] assms[of "CallCallback s f x"]
    assms[of "FlushPromises s ps"] assms[of "FlushList s p ps"]
  by simp_all

lemma resolvePromise_body_rel:
  assumes refl: "\<And>s. R s s"
    and rej: "\<And>s p r. R s (rejectPromise s p r)"
    and ful: "\<And>s p v. p_status (heap s p) = STATUS_PENDING \<Longrightarrow> inert v \<Longrightarrow> R s (fulfill s p v)"
    and rec: "\<And>c. holds_after R (call_state c) (rec c)"
  shows "holds_after R s (resolvePromise_body rec s p v)"
proof (cases "\<exists>t. v = PromiseRef t")
  case True
  then show ?thesis
    unfolding resolvePromise_body_def
    by (auto simp: refl rec_cases[OF rec])
next
  case False
  have 1: "inert v" if "\<not> is_object_or_function v"
    using that by (cases v) (simp_all add: inert_def isPromise_def)
  have 2: "inert v" if "read_then v = NotAFunction"
    using that False by (cases v) (auto simp: inert_def isPromise_def)
  have 3: "(case v of PromiseRef t \<Rightarrow> A t | _ \<Rightarrow> B) = B" for A and B :: "val outcome"
    using False by (cases v) auto
  show ?thesis
    unfolding resolvePromise_body_def 3
    by (auto simp: refl rej ful 1 2 rec_cases[OF rec] split: then_read.splits)
qed

lemma adoptPromise_body_rel:
  assumes rej: "\<And>s p r. R s (rejectPromise s p r)"
    and thn: "\<And>s t f g. p_status (heap s t) = STATUS_PENDING \<Longrightarrow> R s (snd (proto_then s t f g))"
    and rec: "\<And>c. holds_after R (call_state c) (rec c)"
  shows "holds_after R s (adoptPromise_body rec s p t)"
  unfolding adoptPromise_body_def
  by (auto simp: rej thn rec_cases[OF rec] split: status.splits)

lemma then_call_body_rel:
  assumes refl: "\<And>s. R s s"
    and trans: "transp R"
    and rej: "\<And>s p r. R s (rejectPromise s p r)"
    and rec: "\<And>c. holds_after R (call_state c) (rec c)"
  shows "holds_after R s (then_call_body rec s p acts a b)"
proof -
  note r = rec_cases[OF rec]
  have 1: "holds_after R s (case rec (ResolvePromise s p v) of OutOfFuel \<Rightarrow> OutOfFuel
             | Threw e s' \<Rightarrow> Done Undefined s'
             | Done x s' \<Rightarrow> rec (ThenCall s' p rest True b))" for v rest
    by (rule holds_after_try[OF trans]) (simp_all add: r refl)
  have 2: "holds_after R s (rec (ThenCall (rejectPromise s p v) p rest a True))" for v rest
    by (rule holds_after_trans[OF trans rej[of s p v]]) (rule r)
  show ?thesis
    unfolding then_call_body_def
    by (simp add: 1 2 r refl rej split: list.splits then_action.splits)
qed

lemma call_callback_body_rel:
  assumes refl: "\<And>s. R s s"
    and trans: "transp R"
    and rej: "\<And>s p r. R s (rejectPromise s p r)"
    and log: "\<And>s l v. R s (log_event s (Invoked l v))"
    and upd: "\<And>s c cl. R s (s\<lparr>alls := (alls s)(c := cl)\<rparr>)"
    and rec: "\<And>c. holds_after R (call_state c) (rec c)"
  shows "holds_after R s (call_callback_body rec s f x)"
proof -
  note r = rec_cases[OF rec]
  have 1: "holds_after R s (case rec (ResolvePromise s1 p v) of OutOfFuel \<Rightarrow> OutOfFuel
             | Threw e s2 \<Rightarrow> Threw e s2
             | Done x s2 \<Rightarrow> rec (FlushPromises s2 ps))" if "R s s1" for s1 p v ps
  proof (rule holds_after_trans[OF trans that])
    show "holds_after R s1 (case rec (ResolvePromise s1 p v) of OutOfFuel \<Rightarrow> OutOfFuel
             | Threw e s2 \<Rightarrow> Threw e s2
             | Done x s2 \<Rightarrow> rec (FlushPromises s2 ps))"
      by (rule holds_after_try[OF trans]) (simp_all add: r refl)
  qed
  have 2: "holds_after R s (rec (FlushPromises (rejectPromise s p v) ps))" for p v ps
    by (rule holds_after_trans[OF trans rej[of s p v]]) (rule r)
  show ?thesis
    unfolding call_callback_body_def Let_def
    by (simp add: 1 2 r refl rej log upd split: callback.splits ret.splits)
qed

lemma flush_promises_body_rel:
  assumes refl: "\<And>s. R s s"
    and rec: "\<And>c. holds_after R (call_state c) (rec c)"
  shows "holds_after R s (flush_promises_body rec s ps)"
  unfolding flush_promises_body_def
  by (simp add: refl rec_cases[OF rec] split: list.splits)

lemma flush_list_body_rel:
  assumes refl: "\<And>s. R s s"
    and trans: "transp R"
    and rej: "\<And>s p r. R s (rejectPromise s p r)"
    and pop: "\<And>s p item rest. p_list (heap s p) = item # rest \<Longrightarrow>
                R s (set_promise s p ((heap s p)\<lparr>p_list := rest\<rparr>))"
    and rec: "\<And>c. holds_after R (call_state c) (rec c)"
  shows "holds_after R s (flush_list_body rec s p ps)"
proof -
  note r = rec_cases[OF rec]
  have 0: "holds_after R s1 (rec (FlushList (rejectPromise s1 d e) p ps'))" for s1 d e ps'
    by (rule holds_after_trans[OF trans rej[of s1 d e]]) (rule r)
  have 1: "holds_after R s1 (case rec (ResolvePromise s1 d x) of OutOfFuel \<Rightarrow> OutOfFuel
             | Threw e s3 \<Rightarrow> rec (FlushList (rejectPromise s3 d e) p ps')
             | Done y s3 \<Rightarrow> rec (FlushList s3 p ps'))" for s1 d x ps'
    by (rule holds_after_try[OF trans]) (simp_all add: r 0)
  have 2: "holds_after R s1 (case rec (CallCallback s1 f param) of OutOfFuel \<Rightarrow> OutOfFuel
             | Threw e s2 \<Rightarrow> rec (FlushList (rejectPromise s2 d e) p ps')
             | Done x s2 \<Rightarrow> (case rec (ResolvePromise s2 d x) of OutOfFuel \<Rightarrow> OutOfFuel
                 | Threw e s3 \<Rightarrow> rec (FlushList (rejectPromise s3 d e) p ps')
                 | Done y s3 \<Rightarrow> rec (FlushList s3 p ps')))" for s1 f param d ps'
    by (rule holds_after_try[OF trans]) (simp_all add: r 0 1)
  have 3: "holds_after R s1 (case rec (AdoptPromise s1 d p) of OutOfFuel \<Rightarrow> OutOfFuel
             | Threw e s2 \<Rightarrow> Threw e s2
             | Done x s2 \<Rightarrow> rec (FlushList s2 p ps'))" for s1 d ps'
    by (rule holds_after_try[OF trans]) (simp_all add: r refl)
  show ?thesis
  proof (cases "p_list (heap s p)")
    case Nil
    then show ?thesis by (simp add: flush_list_body_def r)
  next
    case (Cons item rest)
    show ?thesis
      unfolding flush_list_body_def Let_def Cons list.case
      by (rule holds_after_trans[OF trans pop[OF Cons]]) (simp add: 2 3 split: option.splits prod.splits)
  qed
qed

lemma run_rel:
  assumes refl: "\<And>s. R s s"
    and trans: "transp R"
    and rej: "\<And>s p r. R s (rejectPromise s p r)"
    and ful: "\<And>s p v. p_status (heap s p) = STATUS_PENDING \<Longrightarrow> inert v \<Longrightarrow> R s (fulfill s p v)"
    and thn: "\<And>s t f g. p_status (heap s t) = STATUS_PENDING \<Longrightarrow> R s (snd (proto_then s t f g))"
    and log: "\<And>s l v. R s (log_event s (Invoked l v))"
    and upd: "\<And>s c cl. R s (s\<lparr>alls := (alls s)(c := cl)\<rparr>)"
    and pop: "\<And>s p item rest. p_list (heap s p) = item # rest \<Longrightarrow>
                R s (set_promise s p ((heap s p)\<lparr>p_list := rest\<rparr>))"
  shows "holds_after R (call_state c) (run n c)"
proof (induction n arbitrary: c)
  case 0
  show ?case by simp
next
  case (Suc n)
  show ?case
    by (cases c)
      (simp_all add: resolvePromise_body_rel[OF refl rej ful Suc]
        adoptPromise_body_rel[OF rej thn Suc]
        then_call_body_rel[OF refl trans rej Suc]
        call_callback_body_rel[OF refl trans rej log upd Suc]
        flush_promises_body_rel[OF refl Suc]
        flush_list_body_rel[OF refl trans rej pop Suc])
qed

subsection \<open>Invocations are only appended\<close>

lemma extends_refl: "extends s s"
  by (simp add: extends_def)

lemma extends_transp: "transp extends"
  unfolding transp_def extends_def
  by (metis append.assoc list_all_append le_trans)

lemma proto_then_pending:
  "p_status (heap s t) = STATUS_PENDING \<Longrightarrow>
   snd (proto_then s t f g) =
     (set_promise (snd (Promise_noop s)) t
        ((heap (snd (Promise_noop s)) t)\<lparr>p_list := p_list (heap (snd (Promise_noop s)) t) @
           [\<lparr>r_resolve = f, r_reject = g, r_promise = next_promise s\<rparr>]\<rparr>))"
  by (simp add: proto_then_def Promise_noop_def set_promise_def empty_promise_def Let_def)

lemma run_extends: "holds_after extends (call_state c) (run n c)"
proof (rule run_rel)
  show "extends s s" for s by (rule extends_refl)
  show "transp extends" by (rule extends_transp)
  show "extends s (rejectPromise s p r)" for s p r
    by (simp add: extends_def rejectPromise_def set_promise_def)
  show "extends s (fulfill s p v)" for s p v
    by (simp add: extends_def fulfill_def set_promise_def)
  show "extends s (snd (proto_then s t f g))" if "p_status (heap s t) = STATUS_PENDING" for s t f g
    by (simp add: proto_then_pending[OF that] extends_def set_promise_def Promise_noop_def)
  show "extends s (log_event s (Invoked l v))" for s l v
    by (simp add: extends_def log_event_def)
  show "extends s (s\<lparr>alls := (alls s)(c := cl)\<rparr>)" for s c cl
    by (simp add: extends_def)
  show "extends s (set_promise s p ((heap s p)\<lparr>p_list := rest\<rparr>))" for s p rest
    by (simp add: extends_def set_promise_def)
qed

subsection \<open>Single steps\<close>

lemma pick_func_pop [simp]: "pick_func (r\<lparr>p_list := xs\<rparr>) item = pick_func r item"
  by (simp add: pick_func_def)

lemma heap_set_promise [simp]: "heap (set_promise s a r) b = (if b = a then r else heap s b)"
  by (simp add: set_promise_def)

lemma flush_list_Suc_user:
  assumes "p_list (heap s p) = item # rest"
    and "pick_func (heap s p) item = Some (UserFn l g, x)"
  shows "flush_list (Suc (Suc n)) s p ps =
    (case g x of
       Throw e \<Rightarrow>
         flush_list (Suc n)
           (rejectPromise (log_event (set_promise s p ((heap s p)\<lparr>p_list := rest\<rparr>)) (Invoked l x))
              (r_promise item) e)
           p (ps @ [r_promise item])
     | Return y \<Rightarrow>
        (case resolvePromise (Suc n)
                (log_event (set_promise s p ((heap s p)\<lparr>p_list := rest\<rparr>)) (Invoked l x))
                (r_promise item) y of
           OutOfFuel \<Rightarrow> OutOfFuel
         | Threw e s4 \<Rightarrow> flush_list (Suc n) (rejectPromise s4 (r_promise item) e) p (ps @ [r_promise item])
         | Done _ s4 \<Rightarrow> flush_list (Suc n) s4 p (ps @ [r_promise item])))"
  unfolding flush_list_def resolvePromise_def using assms
  by (simp add: flush_list_body_def call_callback_body_def Let_def split: ret.splits)

lemma flush_list_Suc_Nil:
  "p_list (heap s p) = [] \<Longrightarrow> flush_list (Suc n) s p ps = flush_promises n s ps"
  by (simp add: flush_list_def flush_promises_def flush_list_body_def)

lemma flush_promises_Suc:
  "flush_promises (Suc n) s [] = Done Undefined s"
  "flush_promises (Suc n) s (p # ps) =
     (if p_status (heap s p) = STATUS_PENDING then flush_promises n s ps else flush_list n s p ps)"
  by (simp_all add: flush_list_def flush_promises_def flush_promises_body_def)

lemma resolvePromise_self:
  "p_status (heap s f) = STATUS_PENDING \<Longrightarrow>
   resolvePromise (Suc n) s f (PromiseRef f) = Threw same_object_error s"
  by (simp add: resolvePromise_def resolvePromise_body_def)

lemma resolvePromise_plain:
  "p_status (heap s f) = STATUS_PENDING \<Longrightarrow> \<not> is_object_or_function v \<Longrightarrow>
   resolvePromise (Suc n) s f v = Done Undefined (fulfill s f v)"
  by (cases v) (simp_all add: resolvePromise_def resolvePromise_body_def)



lemma holds_after_final:
  "holds_after R s r \<Longrightarrow> r \<noteq> OutOfFuel \<Longrightarrow> R s (final r)"
  by (cases r) (simp_all add: final_def)

lemma flush_list_extends: "holds_after extends s (flush_list n s p ps)"
  using run_extends[of "FlushList s p ps" n] by (simp add: flush_list_def)

lemma resolvePromise_extends: "holds_after extends s (resolvePromise n s p v)"
  using run_extends[of "ResolvePromise s p v" n] by (simp add: resolvePromise_def)

lemma extends_rejectPromise: "extends s (rejectPromise s p r)"
  by (simp add: extends_def rejectPromise_def set_promise_def)

lemma flush_list_user_extends:
  assumes "p_list (heap s p) = item # rest"
    and "pick_func (heap s p) item = Some (UserFn l g, x)"
  shows "holds_after extends
           (log_event (set_promise s p ((heap s p)\<lparr>p_list := rest\<rparr>)) (Invoked l x))
           (flush_list (Suc (Suc n)) s p ps)"
proof -
  let ?s3 = "log_event (set_promise s p ((heap s p)\<lparr>p_list := rest\<rparr>)) (Invoked l x)"
  let ?d = "r_promise item"
  have rej: "holds_after extends s' (flush_list (Suc n) (rejectPromise s' ?d e) p (ps @ [?d]))" for s' e
    by (rule holds_after_trans[OF extends_transp extends_rejectPromise flush_list_extends])
  show ?thesis
  proof (cases "g x")
    case (Throw e)
    then show ?thesis by (simp add: flush_list_Suc_user[OF assms] rej)
  next
    case (Return y)
    have "holds_after extends ?s3
            (case resolvePromise (Suc n) ?s3 ?d y of
               OutOfFuel \<Rightarrow> OutOfFuel
             | Threw e s4 \<Rightarrow> flush_list (Suc n) (rejectPromise s4 ?d e) p (ps @ [?d])
             | Done _ s4 \<Rightarrow> flush_list (Suc n) s4 p (ps @ [?d]))"
      by (rule holds_after_try[OF extends_transp resolvePromise_extends])
        (simp_all add: rej flush_list_extends)
    with Return show ?thesis by (simp add: flush_list_Suc_user[OF assms])
  qed
qed

lemma proto_then_trace: "trace (snd (proto_then s me f g)) = trace s"
  by (simp add: proto_then_def Promise_noop_def set_promise_def nextTick_def Let_def)

lemma proto_then_ticks:
  "me < next_promise s \<Longrightarrow>
   ticks (snd (proto_then s me f g)) =
     (if p_status (heap s me) = STATUS_PENDING then ticks s else ticks s @ [me])"
  by (simp add: proto_then_def Promise_noop_def set_promise_def nextTick_def Let_def)

subsection \<open>The constructor\<close>

lemma flush_extends: "holds_after extends s (flush n s p)"
  using run_extends[of "FlushPromises s [p]" n] by (simp add: flush_def)

lemma resolve_callback_extends: "holds_after extends s (resolve_callback n s me v)"
  unfolding resolve_callback_def
  by (rule holds_after_try[OF extends_transp resolvePromise_extends])
    (simp_all add: extends_refl flush_extends)

lemma reject_callback_extends: "holds_after extends s (reject_callback n s me v)"
  unfolding reject_callback_def
  by (rule holds_after_trans[OF extends_transp extends_rejectPromise flush_extends])

lemma run_executor_extends: "holds_after extends s (run_executor n s me acts)"
proof (induction acts arbitrary: s)
  case Nil
  show ?case by (simp add: extends_refl)
next
  case (Cons a acts)
  show ?case
  proof (cases a)
    case (ExecResolve v)
    have "holds_after extends s
            (case resolve_callback n s me v of OutOfFuel \<Rightarrow> OutOfFuel
             | Threw e s' \<Rightarrow> Threw e s' | Done x s' \<Rightarrow> run_executor n s' me acts)"
      by (rule holds_after_try[OF extends_transp resolve_callback_extends])
        (simp_all add: extends_refl Cons.IH)
    with ExecResolve show ?thesis by simp
  next
    case (ExecReject v)
    have "holds_after extends s
            (case reject_callback n s me v of OutOfFuel \<Rightarrow> OutOfFuel
             | Threw e s' \<Rightarrow> Threw e s' | Done x s' \<Rightarrow> run_executor n s' me acts)"
      by (rule holds_after_try[OF extends_transp reject_callback_extends])
        (simp_all add: extends_refl Cons.IH)
    with ExecReject show ?thesis by simp
  next
    case (ExecThrow e)
    then show ?thesis by (simp add: extends_refl)
  qed
qed

lemma new_Promise_Function:
  "new_Promise n s (Function label acts) =
     (case run_executor n (entered s label) (next_promise s) acts of
        OutOfFuel \<Rightarrow> OutOfFuel
      | Threw e s' \<Rightarrow> Threw e s'
      | Done _ s' \<Rightarrow> Done (PromiseRef (next_promise s)) s')"
  by (simp add: new_Promise_def call_executor_def entered_def Promise_noop_def split: option.splits)

lemma new_Promise_extends:
  "holds_after extends (entered s label) (new_Promise n s (Function label acts))"
  using run_executor_extends[of "entered s label" n "next_promise s" acts]
  by (cases "run_executor n (entered s label) (next_promise s) acts")
    (simp_all add: new_Promise_Function)

lemma entered_next: "next_promise (entered s label) = Suc (next_promise s)"
  by (simp add: entered_def Promise_noop_def log_event_def set_promise_def split: option.splits)

lemma entered_trace:
  "trace (entered s label) = trace s @ (case label of None \<Rightarrow> [] | Some l \<Rightarrow> [ExecutorInvoked l])"
  by (simp add: entered_def Promise_noop_def log_event_def set_promise_def split: option.splits)

lemma entered_pending: "p_status (heap (entered s label) (next_promise s)) = STATUS_PENDING"
  by (simp add: entered_def Promise_noop_def log_event_def set_promise_def empty_promise_def
      split: option.splits)

subsection \<open>Fulfilled promises hold plain values, and what can raise\<close>

lemma plain_values_rejectPromise: "plain_values s \<Longrightarrow> plain_values (rejectPromise s p r)"
  by (simp add: plain_values_def rejectPromise_def)

lemma plain_values_fulfill:
  "plain_values s \<Longrightarrow> inert v \<Longrightarrow> plain_values (fulfill s p v)"
  by (simp add: plain_values_def fulfill_def)

lemma plain_values_pop:
  "plain_values s \<Longrightarrow> plain_values (set_promise s p ((heap s p)\<lparr>p_list := rest\<rparr>))"
  by (simp add: plain_values_def)

lemma plain_values_log_event: "plain_values (log_event s e) = plain_values s"
  by (simp add: plain_values_def log_event_def)

lemma plain_values_proto_then: "plain_values s \<Longrightarrow> plain_values (snd (proto_then s t f g))"
  by (simp add: plain_values_def proto_then_def Promise_noop_def nextTick_def empty_promise_def
      Let_def)

lemma run_keeps_plain_values: "holds_after keeps_plain_values (call_state c) (run n c)"
proof (rule run_rel)
  show "keeps_plain_values s s" for s by (simp add: keeps_plain_values_def)
  show "transp keeps_plain_values" by (simp add: transp_def keeps_plain_values_def)
  show "keeps_plain_values s (rejectPromise s p r)" for s p r
    by (simp add: keeps_plain_values_def plain_values_rejectPromise)
  show "keeps_plain_values s (fulfill s p v)" if "inert v" for s p v
    using that by (simp add: keeps_plain_values_def plain_values_fulfill)
  show "keeps_plain_values s (snd (proto_then s t f g))" for s t f g
    by (simp add: keeps_plain_values_def plain_values_proto_then)
  show "keeps_plain_values s (log_event s (Invoked l v))" for s l v
    by (simp add: keeps_plain_values_def plain_values_log_event)
  show "keeps_plain_values s (s\<lparr>alls := (alls s)(c := cl)\<rparr>)" for s c cl
    by (simp add: keeps_plain_values_def plain_values_def)
  show "keeps_plain_values s (set_promise s p ((heap s p)\<lparr>p_list := rest\<rparr>))" for s p rest
    by (simp add: keeps_plain_values_def plain_values_pop)
qed

lemma run_plain_values:
  "plain_values (call_state c) \<Longrightarrow> run n c = Done x s' \<or> run n c = Threw e s' \<Longrightarrow> plain_values s'"
  using run_keeps_plain_values[of c n] by (auto simp: keeps_plain_values_def)

text \<open>Which calls can raise, in a state with plain values.\<close>

lemma resolvePromise_body_raise:
  assumes rec: "\<And>c e s'. plain_values (call_state c) \<Longrightarrow> rec c = Threw e s' \<Longrightarrow> may_raise c"
    and "plain_values s" and "resolvePromise_body rec s p v = Threw e s'"
  shows "v = PromiseRef p"
  using assms(2,3) rec[of "AdoptPromise s p t" for t] rec[of "ThenCall s p acts False False" for acts]
  unfolding resolvePromise_body_def
  by (auto split: if_splits val.splits then_read.splits)

lemma adoptPromise_body_raise:
  assumes rec: "\<And>c e s'. plain_values (call_state c) \<Longrightarrow> rec c = Threw e s' \<Longrightarrow> may_raise c"
    and "plain_values s"
  shows "adoptPromise_body rec s p t \<noteq> Threw e s'"
proof
  assume a: "adoptPromise_body rec s p t = Threw e s'"
  then have st: "p_status (heap s t) = STATUS_FULFILLED"
    and r: "rec (ResolvePromise s p (p_value (heap s t))) = Threw e s'"
    by (auto simp: adoptPromise_body_def split: status.splits)
  from rec[OF _ r] assms(2) have "p_value (heap s t) = PromiseRef p" by simp
  with st assms(2) show False by (auto simp: plain_values_def inert_def isPromise_def)
qed

lemma then_call_body_raise:
  assumes rec: "\<And>c e s'. plain_values (call_state c) \<Longrightarrow> rec c = Threw e s' \<Longrightarrow> may_raise c"
    and keep: "\<And>c x e s'. plain_values (call_state c) \<Longrightarrow> rec c = Done x s' \<or> rec c = Threw e s' \<Longrightarrow> plain_values s'"
    and pv: "plain_values s"
  shows "then_call_body rec s p acts a b \<noteq> Threw e s'"
proof
  assume t: "then_call_body rec s p acts a b = Threw e s'"
  have no: "rec (ThenCall s1 p rest a' b') \<noteq> Threw e s'" if "plain_values s1" for s1 rest a' b'
    using rec[of "ThenCall s1 p rest a' b'" e s'] that by auto
  show False
  proof (cases acts)
    case Nil
    with t show False by (simp add: then_call_body_def)
  next
    case (Cons act rest)
    show False
    proof (cases act)
      case (CallResolve v)
      show False
      proof (cases a)
        case True
        with t Cons CallResolve no[OF pv] show False by (simp add: then_call_body_def)
      next
        case False
        show False
        proof (cases "rec (ResolvePromise s p v)")
          case OutOfFuel
          with t Cons CallResolve False show False by (simp add: then_call_body_def)
        next
          case (Threw e1 s1)
          with t Cons CallResolve False show False by (simp add: then_call_body_def)
        next
          case (Done x1 s1)
          from keep[where c = "ResolvePromise s p v" and x = x1 and s' = s1] pv Done have "plain_values s1" by simp
          from no[OF this] t Cons CallResolve False Done show False
            by (simp add: then_call_body_def)
        qed
      qed
    next
      case (CallReject v)
      with t Cons no[OF pv] no[OF plain_values_rejectPromise[OF pv]] show False
        by (simp add: then_call_body_def split: if_splits)
    next
      case (ThrowInThen x)
      with t Cons show False by (simp add: then_call_body_def split: if_splits)
    qed
  qed
qed

lemma flush_promises_body_raise:
  assumes rec: "\<And>c e s'. plain_values (call_state c) \<Longrightarrow> rec c = Threw e s' \<Longrightarrow> may_raise c"
    and pv: "plain_values s"
  shows "flush_promises_body rec s ps \<noteq> Threw e s'"
  using rec[of "FlushPromises s rest" e s' for rest] rec[of "FlushList s q rest" e s' for q rest] pv
  unfolding flush_promises_body_def
  by (auto split: list.splits if_splits)

lemma flush_list_body_raise:
  assumes rec: "\<And>c e s'. plain_values (call_state c) \<Longrightarrow> rec c = Threw e s' \<Longrightarrow> may_raise c"
    and keep: "\<And>c x e s'. plain_values (call_state c) \<Longrightarrow> rec c = Done x s' \<or> rec c = Threw e s' \<Longrightarrow> plain_values s'"
    and pv: "plain_values s"
  shows "flush_list_body rec s p ps \<noteq> Threw e s'"
proof
  assume t: "flush_list_body rec s p ps = Threw e s'"
  have no: "rec (FlushList s1 p ps') \<noteq> Threw e s'" if "plain_values s1" for s1 ps'
    using rec[of "FlushList s1 p ps'" e s'] that by auto
  show False
  proof (cases "p_list (heap s p)")
    case Nil
    with t rec[of "FlushPromises s ps" e s'] pv show False by (simp add: flush_list_body_def)
  next
    case (Cons item rest)
    let ?s1 = "set_promise s p ((heap s p)\<lparr>p_list := rest\<rparr>)"
    let ?d = "r_promise item"
    have pv1: "plain_values ?s1" using pv by (rule plain_values_pop)
    show False
    proof (cases "pick_func (heap ?s1 p) item")
      case None
      show False
      proof (cases "rec (AdoptPromise ?s1 ?d p)")
        case OutOfFuel
        with t Cons None show False by (simp add: flush_list_body_def Let_def)
      next
        case (Threw e1 s1)
        from rec[OF _ this] pv1 show False by simp
      next
        case (Done x1 s1)
        from keep[where c = "AdoptPromise ?s1 ?d p" and x = x1 and s' = s1] pv1 Done have "plain_values s1" by simp
        from no[OF this] t Cons None Done show False by (simp add: flush_list_body_def Let_def)
      qed
    next
      case (Some fx)
      obtain f x where fx: "fx = (f, x)" by (cases fx)
      show False
      proof (cases "rec (CallCallback ?s1 f x)")
        case OutOfFuel
        with t Cons Some fx show False by (simp add: flush_list_body_def Let_def)
      next
        case (Threw e1 s1)
        from keep[where c = "CallCallback ?s1 f x" and e = e1 and s' = s1] pv1 Threw have "plain_values s1" by simp
        from no[OF plain_values_rejectPromise[OF this]] t Cons Some fx Threw show False
          by (simp add: flush_list_body_def Let_def)
      next
        case (Done y s1)
        from keep[where c = "CallCallback ?s1 f x" and x = y and s' = s1] pv1 Done have pvs1: "plain_values s1" by simp
        show False
        proof (cases "rec (ResolvePromise s1 ?d y)")
          case OutOfFuel
          with t Cons Some fx Done show False by (simp add: flush_list_body_def Let_def)
        next
          case (Threw e2 s2)
          from keep[where c = "ResolvePromise s1 ?d y" and e = e2 and s' = s2] pvs1 Threw have "plain_values s2" by simp
          from no[OF plain_values_rejectPromise[OF this]] t Cons Some fx Done Threw show False
            by (simp add: flush_list_body_def Let_def)
        next
          case (Done z s2)
          from keep[where c = "ResolvePromise s1 ?d y" and x = z and s' = s2] pvs1 Done have "plain_values s2" by simp
          from no[OF this] t Cons Some fx \<open>rec (CallCallback ?s1 f x) = Done y s1\<close> Done show False
            by (simp add: flush_list_body_def Let_def)
        qed
      qed
    qed
  qed
qed

lemma run_raise: "plain_values (call_state c) \<Longrightarrow> run n c = Threw e s' \<Longrightarrow> may_raise c"
proof (induction n arbitrary: c e s')
  case 0
  then show ?case by simp
next
  case (Suc n)
  have rec: "\<And>c e s'. plain_values (call_state c) \<Longrightarrow> run n c = Threw e s' \<Longrightarrow> may_raise c"
    by (rule Suc.IH)
  have keep: "\<And>c x e s'. plain_values (call_state c) \<Longrightarrow>
      run n c = Done x s' \<or> run n c = Threw e s' \<Longrightarrow> plain_values s'"
    by (rule run_plain_values)
  show ?case
  proof (cases c)
    case (ResolvePromise s p v)
    with Suc.prems resolvePromise_body_raise[of "run n" s p v e s', OF rec] show ?thesis by simp
  next
    case (AdoptPromise s p t)
    with Suc.prems adoptPromise_body_raise[of "run n" s p t e s', OF rec] show ?thesis by simp
  next
    case (ThenCall s p acts a b)
    with Suc.prems then_call_body_raise[of "run n" s p acts a b e s', OF rec keep] show ?thesis
      by simp
  next
    case (CallCallback s f x)
    then show ?thesis by simp
  next
    case (FlushPromises s ps)
    with Suc.prems flush_promises_body_raise[of "run n" s ps e s', OF rec] show ?thesis by simp
  next
    case (FlushList s p ps)
    with Suc.prems flush_list_body_raise[of "run n" s p ps e s', OF rec keep] show ?thesis by simp
  qed
qed

lemma flush_never_raises: "plain_values s \<Longrightarrow> raised (flush n s p) = None"
  using run_raise[of "FlushPromises s [p]" n]
  by (cases "flush n s p") (auto simp: flush_def)

lemma plain_values_init_state: "plain_values init_state"
  by (simp add: plain_values_def init_state_def empty_promise_def)

lemma holds_after_keeps:
  "holds_after keeps_plain_values s r \<Longrightarrow> plain_values s \<Longrightarrow> r \<noteq> OutOfFuel \<Longrightarrow>
   plain_values (final r)"
  by (cases r) (simp_all add: final_def keeps_plain_values_def)

lemma resolvePromise_keeps: "holds_after keeps_plain_values s (resolvePromise n s p v)"
  using run_keeps_plain_values[of "ResolvePromise s p v" n] by (simp add: resolvePromise_def)

lemma flush_keeps: "holds_after keeps_plain_values s (flush n s p)"
  using run_keeps_plain_values[of "FlushPromises s [p]" n] by (simp add: flush_def)

lemma keeps_transp: "transp keeps_plain_values"
  by (simp add: transp_def keeps_plain_values_def)

lemma resolve_callback_keeps: "holds_after keeps_plain_values s (resolve_callback n s me v)"
  unfolding resolve_callback_def
  by (rule holds_after_try[OF keeps_transp resolvePromise_keeps])
    (simp_all add: keeps_plain_values_def flush_keeps)

lemma reject_callback_keeps: "holds_after keeps_plain_values s (reject_callback n s me v)"
  unfolding reject_callback_def
  by (rule holds_after_trans[OF keeps_transp _ flush_keeps])
    (simp add: keeps_plain_values_def plain_values_rejectPromise)

lemma run_executor_keeps: "holds_after keeps_plain_values s (run_executor n s me acts)"
proof (induction acts arbitrary: s)
  case Nil
  show ?case by (simp add: keeps_plain_values_def)
next
  case (Cons a acts)
  show ?case
  proof (cases a)
    case (ExecResolve v)
    have "holds_after keeps_plain_values s
            (case resolve_callback n s me v of OutOfFuel \<Rightarrow> OutOfFuel
             | Threw e s' \<Rightarrow> Threw e s' | Done x s' \<Rightarrow> run_executor n s' me acts)"
      by (rule holds_after_try[OF keeps_transp resolve_callback_keeps])
        (simp_all add: keeps_plain_values_def Cons.IH)
    with ExecResolve show ?thesis by simp
  next
    case (ExecReject v)
    have "holds_after keeps_plain_values s
            (case reject_callback n s me v of OutOfFuel \<Rightarrow> OutOfFuel
             | Threw e s' \<Rightarrow> Threw e s' | Done x s' \<Rightarrow> run_executor n s' me acts)"
      by (rule holds_after_try[OF keeps_transp reject_callback_keeps])
        (simp_all add: keeps_plain_values_def Cons.IH)
    with ExecReject show ?thesis by simp
  next
    case (ExecThrow e)
    then show ?thesis by (simp add: keeps_plain_values_def)
  qed
qed

lemma plain_values_entered: "plain_values s \<Longrightarrow> plain_values (entered s label)"
  by (simp add: plain_values_def entered_def Promise_noop_def log_event_def empty_promise_def
      split: option.splits)

lemma new_Promise_keeps: "holds_after keeps_plain_values s (new_Promise n s executor)"
proof (cases executor)
  case (NotCallable v)
  then show ?thesis by (simp add: new_Promise_def keeps_plain_values_def)
next
  case (Function label acts)
  have "keeps_plain_values s (entered s label)"
    by (simp add: keeps_plain_values_def plain_values_entered)
  from holds_after_trans[OF keeps_transp this run_executor_keeps[of "entered s label" n "next_promise s" acts]]
  show ?thesis unfolding Function
    by (cases "run_executor n (entered s label) (next_promise s) acts")
      (simp_all add: new_Promise_Function)
qed

lemma all_loop_plain_values: "plain_values s \<Longrightarrow> plain_values (all_loop s c i ps)"
  by (induction ps arbitrary: s i) (simp_all add: plain_values_proto_then)

lemma Promise_all_plain_values: "plain_values s \<Longrightarrow> plain_values (snd (Promise_all s ps))"
proof -
  assume pv: "plain_values s"
  have "plain_values ((snd (Promise_noop s))\<lparr>alls := f, next_all := k\<rparr>)" for f k
    using pv by (simp add: plain_values_def Promise_noop_def empty_promise_def)
  then show ?thesis
    by (simp add: Promise_all_def Let_def split_beta all_loop_plain_values)
qed

lemma run_tick_keeps: "holds_after keeps_plain_values s (run_tick n s)"
proof (cases "ticks s")
  case Nil
  then show ?thesis by (simp add: run_tick_def keeps_plain_values_def)
next
  case (Cons me rest)
  have "keeps_plain_values s (s\<lparr>ticks := rest\<rparr>)"
    by (simp add: keeps_plain_values_def plain_values_def)
  from holds_after_trans[OF keeps_transp this flush_keeps] Cons show ?thesis
    by (simp add: run_tick_def)
qed

subsection \<open>Resolution leaves settled promises alone and halts\<close>

lemma resolvePromise_body_restrict:
  "resolvePromise_body (\<lambda>c. if resolve_call c then rec c else OutOfFuel) s p v =
   resolvePromise_body rec s p v"
  unfolding resolvePromise_body_def
  by (simp cong: if_cong val.case_cong then_read.case_cong)

lemma adoptPromise_body_restrict:
  "adoptPromise_body (\<lambda>c. if resolve_call c then rec c else OutOfFuel) s p t =
   adoptPromise_body rec s p t"
  unfolding adoptPromise_body_def
  by (simp cong: status.case_cong)

lemma then_call_body_restrict:
  "then_call_body (\<lambda>c. if resolve_call c then rec c else OutOfFuel) s p acts a b =
   then_call_body rec s p acts a b"
  unfolding then_call_body_def
  by (simp cong: if_cong list.case_cong then_action.case_cong outcome.case_cong)

lemma run_rel_resolve:
  assumes refl: "\<And>s. R s s"
    and trans: "transp R"
    and rej: "\<And>s p r. R s (rejectPromise s p r)"
    and ful: "\<And>s p v. p_status (heap s p) = STATUS_PENDING \<Longrightarrow> inert v \<Longrightarrow> R s (fulfill s p v)"
    and thn: "\<And>s t f g. p_status (heap s t) = STATUS_PENDING \<Longrightarrow> R s (snd (proto_then s t f g))"
  shows "resolve_call c \<Longrightarrow> holds_after R (call_state c) (run n c)"
proof (induction n arbitrary: c)
  case 0
  show ?case by simp
next
  case (Suc n)
  let ?rec = "\<lambda>c. if resolve_call c then run n c else OutOfFuel"
  have r: "holds_after R (call_state c) (?rec c)" for c
    using Suc.IH[of c] by simp
  show ?case
  proof (cases c)
    case (ResolvePromise s p v)
    from resolvePromise_body_rel[of R ?rec s p v, OF refl rej ful r] ResolvePromise
    show ?thesis by (simp add: resolvePromise_body_restrict)
  next
    case (AdoptPromise s p t)
    from adoptPromise_body_rel[of R ?rec s p t, OF rej thn r] AdoptPromise
    show ?thesis by (simp add: adoptPromise_body_restrict)
  next
    case (ThenCall s p acts a b)
    from then_call_body_rel[of R ?rec s p acts a b, OF refl trans rej r] ThenCall
    show ?thesis by (simp add: then_call_body_restrict)
  next
    case (CallCallback s f x)
    with Suc.prems show ?thesis by simp
  next
    case (FlushPromises s ps)
    with Suc.prems show ?thesis by simp
  next
    case (FlushList s p ps)
    with Suc.prems show ?thesis by simp
  qed
qed

lemma untouched_transp: "transp untouched"
  unfolding transp_def untouched_def
  by (metis le_trans order_less_le_trans)

lemma untouchedI:
  assumes "trace s' = trace s" "next_promise s \<le> next_promise s'"
    "\<And>a. a < next_promise s \<Longrightarrow> p_status (heap s a) \<noteq> STATUS_PENDING \<Longrightarrow> heap s' a = heap s a"
  shows "untouched s s'"
  using assms by (simp add: untouched_def)

lemma untouched_rejectPromise: "untouched s (rejectPromise s p r)"
proof (cases "p_status (heap s p) = STATUS_PENDING")
  case True
  show ?thesis
  proof (rule untouchedI)
    fix a assume "p_status (heap s a) \<noteq> STATUS_PENDING"
    with True have "a \<noteq> p" by auto
    then show "heap (rejectPromise s p r) a = heap s a" by (simp add: rejectPromise_def)
  qed (simp_all add: rejectPromise_def set_promise_def)
next
  case False
  then show ?thesis by (simp add: rejectPromise_def untouched_def)
qed

lemma untouched_fulfill:
  assumes "p_status (heap s p) = STATUS_PENDING"
  shows "untouched s (fulfill s p v)"
proof (rule untouchedI)
  fix a assume "p_status (heap s a) \<noteq> STATUS_PENDING"
  with assms have "a \<noteq> p" by auto
  then show "heap (fulfill s p v) a = heap s a" by (simp add: fulfill_def)
qed (simp_all add: fulfill_def set_promise_def)

lemma untouched_proto_then:
  assumes "p_status (heap s t) = STATUS_PENDING"
  shows "untouched s (snd (proto_then s t f g))"
proof (rule untouchedI)
  fix a assume a: "a < next_promise s" "p_status (heap s a) \<noteq> STATUS_PENDING"
  with assms have "a \<noteq> t" by auto
  with a show "heap (snd (proto_then s t f g)) a = heap s a"
    by (simp add: proto_then_pending[OF assms] Promise_noop_def)
qed (simp_all add: proto_then_pending[OF assms] Promise_noop_def set_promise_def)

lemma run_untouched: "resolve_call c \<Longrightarrow> holds_after untouched (call_state c) (run n c)"
proof (rule run_rel_resolve)
  show "untouched s s" for s by (simp add: untouched_def)
  show "transp untouched" by (rule untouched_transp)
  show "untouched s (rejectPromise s p r)" for s p r by (rule untouched_rejectPromise)
  show "untouched s (fulfill s p v)" if "p_status (heap s p) = STATUS_PENDING" for s p v
    using that by (rule untouched_fulfill)
  show "untouched s (snd (proto_then s t f g))" if "p_status (heap s t) = STATUS_PENDING" for s t f g
    using that by (rule untouched_proto_then)
qed

lemma halts_stable:
  assumes "halts c"
  shows "\<exists>N r. r \<noteq> OutOfFuel \<and> (\<forall>n\<ge>N. run n c = r)"
proof -
  from assms obtain N where N: "run N c \<noteq> OutOfFuel" by (auto simp: halts_def)
  then have "\<forall>n\<ge>N. run n c = run N c" using run_mono by blast
  with N show ?thesis by blast
qed

lemma haltsI: "run n c \<noteq> OutOfFuel \<Longrightarrow> halts c"
  by (auto simp: halts_def)

lemma resolvePromise_inert:
  "p_status (heap s p) = STATUS_PENDING \<Longrightarrow> inert v \<Longrightarrow>
   run (Suc n) (ResolvePromise s p v) = Done Undefined (fulfill s p v)"
  by (cases v) (auto simp: resolvePromise_body_def inert_def isPromise_def split: then_read.splits)

lemma then_call_halts:
  assumes el: "\<And>v' s p. CallResolve v' \<in> set acts \<Longrightarrow> plain_values s \<Longrightarrow> halts (ResolvePromise s p v')"
  shows "plain_values s \<Longrightarrow> halts (ThenCall s p acts a b)"
  using el
proof (induction acts arbitrary: s a b)
  case Nil
  show ?case by (rule haltsI[of "Suc 0"]) (simp add: then_call_body_def)
next
  case (Cons act rest)
  have ih: "halts (ThenCall s1 p rest a1 b1)" if "plain_values s1" for s1 a1 b1
    using Cons.IH[OF that] Cons.prems(2) by auto
  have step: "halts (ThenCall s p (act # rest) a b)"
    if "run n (ThenCall s1 p rest a1 b1) \<noteq> OutOfFuel"
      "\<And>m. n \<le> m \<Longrightarrow> run (Suc m) (ThenCall s p (act # rest) a b) = run m (ThenCall s1 p rest a1 b1)"
    for n s1 a1 b1
    using that by (intro haltsI[of "Suc n"]) simp
  show ?case
  proof (cases act)
    case (CallResolve v')
    show ?thesis
    proof (cases a)
      case True
      from ih[OF Cons.prems(1), of a b] obtain n where "run n (ThenCall s p rest a b) \<noteq> OutOfFuel"
        by (auto simp: halts_def)
      then show ?thesis
        by (rule step) (simp add: CallResolve True then_call_body_def)
    next
      case False
      from Cons.prems(2)[of v' s p] CallResolve Cons.prems(1)
      obtain n1 where n1: "run n1 (ResolvePromise s p v') \<noteq> OutOfFuel"
        by (auto simp: halts_def)
      show ?thesis
      proof (cases "run n1 (ResolvePromise s p v')")
        case OutOfFuel
        with n1 show ?thesis by simp
      next
        case (Threw e s1)
        show ?thesis
          by (rule haltsI[of "Suc n1"]) (simp add: CallResolve False then_call_body_def Threw)
      next
        case (Done x s1)
        from run_plain_values[of "ResolvePromise s p v'" n1 x s1] Cons.prems(1) Done
        have "plain_values s1" by simp
        from ih[OF this, of True b] obtain n2 where n2: "run n2 (ThenCall s1 p rest True b) \<noteq> OutOfFuel"
          by (auto simp: halts_def)
        let ?n = "max n1 n2"
        have a1: "run ?n (ResolvePromise s p v') = Done x s1"
          using run_mono[OF n1, of ?n] Done by simp
        have a2: "run ?n (ThenCall s1 p rest True b) \<noteq> OutOfFuel"
          using run_mono[OF n2, of ?n] n2 by simp
        show ?thesis
          by (rule haltsI[of "Suc ?n"]) (simp add: CallResolve False then_call_body_def a1 a2)
      qed
    qed
  next
    case (CallReject r)
    show ?thesis
    proof (cases b)
      case True
      from ih[OF Cons.prems(1), of a b] obtain n where "run n (ThenCall s p rest a b) \<noteq> OutOfFuel"
        by (auto simp: halts_def)
      then show ?thesis
        by (rule step) (simp add: CallReject True then_call_body_def)
    next
      case False
      from ih[OF plain_values_rejectPromise[OF Cons.prems(1)], of p r a True]
      obtain n where "run n (ThenCall (rejectPromise s p r) p rest a True) \<noteq> OutOfFuel"
        by (auto simp: halts_def)
      then show ?thesis
        by (rule step) (simp add: CallReject False then_call_body_def)
    qed
  next
    case (ThrowInThen e)
    show ?thesis
      by (rule haltsI[of "Suc 0"]) (simp add: ThrowInThen then_call_body_def)
  qed
qed

lemma size_CallResolve:
  "CallResolve v' \<in> set acts \<Longrightarrow> size v' < size (Thenable (ThenFunction acts))"
proof -
  assume "CallResolve v' \<in> set acts"
  then have "size (CallResolve v') \<le> size_list size acts"
    by (rule size_list_estimation') simp
  then show ?thesis by simp
qed

lemma resolvePromise_halts: "plain_values s \<Longrightarrow> halts (ResolvePromise s p v)"
proof (induction v arbitrary: s p rule: measure_induct_rule[of size])
  case (less v)
  show ?case
  proof (cases "p_status (heap s p) = STATUS_PENDING")
    case False
    then show ?thesis
      by (intro haltsI[of "Suc 0"]) (simp add: resolvePromise_body_def)
  next
    case True
    show ?thesis
    proof (cases "inert v")
      case True
      with \<open>p_status (heap s p) = STATUS_PENDING\<close>
      have "run (Suc 0) (ResolvePromise s p v) = Done Undefined (fulfill s p v)"
        by (rule resolvePromise_inert)
      then show ?thesis by (intro haltsI[of "Suc 0"]) (simp del: run.simps)
    next
      case False
      show ?thesis
      proof (cases v)
        case (PromiseRef t)
        have "run (Suc (Suc (Suc 0))) (ResolvePromise s p v) \<noteq> OutOfFuel"
        proof (cases "p_status (heap s t)")
          case STATUS_PENDING
          then show ?thesis
            by (simp add: PromiseRef resolvePromise_body_def adoptPromise_body_def)
        next
          case STATUS_FULFILLED
          with less.prems have "inert (p_value (heap s t))" by (simp add: plain_values_def)
          with True have "run (Suc 0) (ResolvePromise s p (p_value (heap s t))) \<noteq> OutOfFuel"
            by (simp add: resolvePromise_inert del: run.simps)
          with STATUS_FULFILLED True show ?thesis
            by (simp add: PromiseRef resolvePromise_body_def adoptPromise_body_def)
        next
          case STATUS_REJECTED
          then show ?thesis
            by (simp add: PromiseRef resolvePromise_body_def adoptPromise_body_def)
        qed
        then show ?thesis by (rule haltsI)
      next
        case (Thenable tm)
        show ?thesis
        proof (cases tm)
          case (ThenGetterThrows e)
          show ?thesis
            by (rule haltsI[of "Suc 0"])
              (simp add: Thenable ThenGetterThrows resolvePromise_body_def)
        next
          case (ThenFunction acts)
          have "halts (ThenCall s p acts False False)"
          proof (rule then_call_halts)
            show "halts (ResolvePromise s' p' v')"
              if "CallResolve v' \<in> set acts" "plain_values s'" for v' s' p'
              using less.IH[of v' s' p'] that size_CallResolve[of v' acts]
              by (simp add: Thenable ThenFunction)
          qed (rule less.prems)
          then obtain n where "run n (ThenCall s p acts False False) \<noteq> OutOfFuel"
            by (auto simp: halts_def)
          then show ?thesis
            by (intro haltsI[of "Suc n"])
              (simp add: Thenable ThenFunction resolvePromise_body_def True)
        qed
      next
        case Null
        show ?thesis
          by (rule haltsI[of "Suc 0"]) (simp add: Null resolvePromise_body_def)
      qed (use False in \<open>simp_all add: inert_def isPromise_def\<close>)
    qed
  qed
qed

subsection \<open>The inner loop of flush delivers the reactions in order\<close>

lemma pick_func_member:
  "p_status pr \<noteq> STATUS_PENDING \<Longrightarrow>
   pick_func pr item =
     (case member_for pr item of None \<Rightarrow> None | Some f \<Rightarrow> Some (f, settled_with pr))"
  by (cases "p_status pr")
    (auto simp: pick_func_def member_for_def settled_with_def isFunction_def split: option.splits)

lemma untouchedD:
  assumes "untouched s s'" "a < next_promise s" "p_status (heap s a) \<noteq> STATUS_PENDING"
  shows "heap s' a = heap s a" "trace s' = trace s" "next_promise s \<le> next_promise s'"
  using assms by (simp_all add: untouched_def)

lemma resolvePromise_untouched: "holds_after untouched s (resolvePromise n s p v)"
  using run_untouched[of "ResolvePromise s p v" n] by (simp add: resolvePromise_def)

lemma resolvePromise_stable:
  assumes "plain_values s"
  shows "\<exists>N r. r \<noteq> OutOfFuel \<and> (\<forall>n\<ge>N. resolvePromise n s p v = r)"
  using halts_stable[OF resolvePromise_halts[OF assms, of p v]] by (simp add: resolvePromise_def)

lemma flush_list_Suc_None:
  assumes "p_list (heap s p) = item # rest" "pick_func (heap s p) item = None"
  shows "flush_list (Suc n) s p ps =
    (case adoptPromise n (set_promise s p ((heap s p)\<lparr>p_list := rest\<rparr>)) (r_promise item) p of
       OutOfFuel \<Rightarrow> OutOfFuel
     | Threw e s2 \<Rightarrow> Threw e s2
     | Done _ s2 \<Rightarrow> flush_list n s2 p (ps @ [r_promise item]))"
  unfolding flush_list_def adoptPromise_def using assms
  by (simp add: flush_list_body_def Let_def)

lemma adoptPromise_Suc:
  "adoptPromise (Suc n) s source target =
     (case p_status (heap s target) of
        STATUS_PENDING \<Rightarrow>
          Done Undefined
            (snd (proto_then s target (Some (AdoptResolve source)) (Some (AdoptReject source))))
      | STATUS_FULFILLED \<Rightarrow> resolvePromise n s source (p_value (heap s target))
      | STATUS_REJECTED \<Rightarrow> Done Undefined (rejectPromise s source (p_reason (heap s target))))"
  unfolding adoptPromise_def resolvePromise_def by (simp add: adoptPromise_body_def)

lemma resolvePromise_Suc_inert:
  "p_status (heap s p) = STATUS_PENDING \<Longrightarrow> inert v \<Longrightarrow>
   resolvePromise (Suc n) s p v = Done Undefined (fulfill s p v)"
  unfolding resolvePromise_def by (rule resolvePromise_inert)

lemma adoptPromise_settled:
  assumes pv: "plain_values s" and st: "p_status (heap s t) \<noteq> STATUS_PENDING"
  shows "\<exists>s'. (\<forall>n. adoptPromise (Suc (Suc n)) s d t = Done Undefined s') \<and>
              untouched s s' \<and> plain_values s'"
proof (cases "p_status (heap s t)")
  case STATUS_PENDING
  with st show ?thesis by simp
next
  case STATUS_REJECTED
  then have "\<forall>n. adoptPromise (Suc (Suc n)) s d t = Done Undefined (rejectPromise s d (p_reason (heap s t)))"
    by (simp add: adoptPromise_def adoptPromise_body_def)
  then show ?thesis
    using untouched_rejectPromise plain_values_rejectPromise[OF pv] by blast
next
  case STATUS_FULFILLED
  with pv have inert: "inert (p_value (heap s t))" by (simp add: plain_values_def)
  show ?thesis
  proof (cases "p_status (heap s d) = STATUS_PENDING")
    case True
    with inert STATUS_FULFILLED
    have "\<forall>n. adoptPromise (Suc (Suc n)) s d t = Done Undefined (fulfill s d (p_value (heap s t)))"
      by (simp add: adoptPromise_Suc resolvePromise_Suc_inert)
    then show ?thesis
      using untouched_fulfill[OF True] plain_values_fulfill[OF pv inert] by blast
  next
    case False
    with STATUS_FULFILLED
    have "\<forall>n. adoptPromise (Suc (Suc n)) s d t = Done Undefined s"
      by (simp add: adoptPromise_Suc resolvePromise_settled)
    then show ?thesis using pv by (auto simp: untouched_def)
  qed
qed

lemma delivered_untouched:
  "delivered evs s s1 \<Longrightarrow> untouched s1 s2 \<Longrightarrow> delivered evs s s2"
  unfolding delivered_def untouched_def
  by (metis le_trans order_less_le_trans)

lemma untouched_delivered: "untouched s s' \<Longrightarrow> delivered [] s s'"
  by (simp add: delivered_def untouched_def)

lemma untouched_refl: "untouched s s"
  by (simp add: untouched_def)

lemma flush_list_Suc_callback:
  assumes "p_list (heap s p) = item # rest" "pick_func (heap s p) item = Some (f, x)"
  shows "flush_list (Suc n) s p ps =
    (case call_callback n (set_promise s p ((heap s p)\<lparr>p_list := rest\<rparr>)) f x of
       OutOfFuel \<Rightarrow> OutOfFuel
     | Threw e s2 \<Rightarrow> flush_list n (rejectPromise s2 (r_promise item) e) p (ps @ [r_promise item])
     | Done y s2 \<Rightarrow>
        (case resolvePromise n s2 (r_promise item) y of
           OutOfFuel \<Rightarrow> OutOfFuel
         | Threw e s3 \<Rightarrow>
             flush_list n (rejectPromise s3 (r_promise item) e) p (ps @ [r_promise item])
         | Done _ s3 \<Rightarrow> flush_list n s3 p (ps @ [r_promise item])))"
  unfolding flush_list_def resolvePromise_def call_callback_def using assms
  by (simp add: flush_list_body_def Let_def)

lemma call_callback_Suc:
  "call_callback (Suc n) s (UserFn l g) x =
     (case g x of
        Return y \<Rightarrow> Done y (log_event s (Invoked l x))
      | Throw e \<Rightarrow> Threw e (log_event s (Invoked l x)))"
  "call_callback (Suc n) s (AdoptResolve source) x = resolvePromise n s source x"
  "call_callback (Suc n) s (AdoptReject source) x = Done Undefined (rejectPromise s source x)"
  unfolding call_callback_def resolvePromise_def by (simp_all add: call_callback_body_def)

lemma resolve_phase:
  assumes pv: "plain_values s2"
  shows "\<exists>N s'. (\<forall>n\<ge>N. \<forall>K :: state \<Rightarrow> val outcome.
            (case resolvePromise n s2 d y of
               OutOfFuel \<Rightarrow> OutOfFuel
             | Threw e s3 \<Rightarrow> K (rejectPromise s3 d e)
             | Done _ s3 \<Rightarrow> K s3) = K s') \<and>
          untouched s2 s' \<and> plain_values s'"
proof -
  from resolvePromise_stable[OF pv, of d y]
  obtain N r where r: "r \<noteq> OutOfFuel" "\<forall>n\<ge>N. resolvePromise n s2 d y = r"
    by blast
  from r(2) have rN: "resolvePromise N s2 d y = r" by simp
  have rel: "holds_after untouched s2 r" "holds_after keeps_plain_values s2 r"
    using resolvePromise_untouched[of s2 N d y] resolvePromise_keeps[of s2 N d y] rN
    by simp_all
  show ?thesis
  proof (cases r)
    case OutOfFuel
    with r(1) show ?thesis by simp
  next
    case (Threw e s3)
    with rel pv have u: "untouched s2 s3" and pv3: "plain_values s3"
      by (simp_all add: keeps_plain_values_def)
    have "untouched s2 (rejectPromise s3 d e)"
      using untouched_transp u untouched_rejectPromise by (rule transpD)
    with r(2) Threw plain_values_rejectPromise[OF pv3] show ?thesis
      by (intro exI[of _ N] exI[of _ "rejectPromise s3 d e"]) simp
  next
    case (Done z s3)
    with rel pv have "untouched s2 s3" "plain_values s3"
      by (simp_all add: keeps_plain_values_def)
    moreover have "\<forall>n\<ge>N. \<forall>K :: state \<Rightarrow> val outcome.
            (case resolvePromise n s2 d y of
               OutOfFuel \<Rightarrow> OutOfFuel
             | Threw e s3 \<Rightarrow> K (rejectPromise s3 d e)
             | Done _ s3 \<Rightarrow> K s3) = K s3"
      using r(2) Done by simp
    ultimately show ?thesis by blast
  qed
qed

lemma reaction_phase:
  assumes pv: "plain_values s1" and sm: "simple_member (Some f)"
  shows "\<exists>N s'. (\<forall>n\<ge>N. \<forall>K :: state \<Rightarrow> val outcome.
            (case call_callback n s1 f x of
               OutOfFuel \<Rightarrow> OutOfFuel
             | Threw e s2 \<Rightarrow> K (rejectPromise s2 d e)
             | Done y s2 \<Rightarrow>
                (case resolvePromise n s2 d y of
                   OutOfFuel \<Rightarrow> OutOfFuel
                 | Threw e s3 \<Rightarrow> K (rejectPromise s3 d e)
                 | Done _ s3 \<Rightarrow> K s3)) = K s') \<and>
          delivered (invocation x (Some f)) s1 s' \<and> plain_values s'"
proof -
  have after: ?thesis
    if cb: "\<forall>n\<ge>N1. call_callback n s1 f x = Done y s2"
      and d2: "delivered (invocation x (Some f)) s1 s2" and pv2: "plain_values s2"
    for N1 y s2
  proof -
    from resolve_phase[OF pv2, of d y]
    obtain N2 s' where p2: "\<forall>n\<ge>N2. \<forall>K :: state \<Rightarrow> val outcome.
            (case resolvePromise n s2 d y of
               OutOfFuel \<Rightarrow> OutOfFuel
             | Threw e s3 \<Rightarrow> K (rejectPromise s3 d e)
             | Done _ s3 \<Rightarrow> K s3) = K s'"
      and u: "untouched s2 s'" and pv': "plain_values s'"
      by blast
    show ?thesis
    proof (intro exI[of _ "max N1 N2"] exI[of _ s'] conjI allI impI)
      fix n and K :: "state \<Rightarrow> val outcome"
      assume "max N1 N2 \<le> n"
      then have n: "N1 \<le> n" "N2 \<le> n" by simp_all
      from cb n(1) have c: "call_callback n s1 f x = Done y s2" by blast
      from p2 n(2) have "(case resolvePromise n s2 d y of
               OutOfFuel \<Rightarrow> OutOfFuel
             | Threw e s3 \<Rightarrow> K (rejectPromise s3 d e)
             | Done _ s3 \<Rightarrow> K s3) = K s'"
        by blast
      then show "(case call_callback n s1 f x of
               OutOfFuel \<Rightarrow> OutOfFuel
             | Threw e s2 \<Rightarrow> K (rejectPromise s2 d e)
             | Done y s2 \<Rightarrow>
                (case resolvePromise n s2 d y of
                   OutOfFuel \<Rightarrow> OutOfFuel
                 | Threw e s3 \<Rightarrow> K (rejectPromise s3 d e)
                 | Done _ s3 \<Rightarrow> K s3)) = K s'"
        by (simp add: c)
    qed (use delivered_untouched[OF d2 u] pv' in simp_all)
  qed
  have raise: ?thesis
    if cb: "\<forall>n\<ge>N1. call_callback n s1 f x = Threw e s2"
      and d2: "delivered (invocation x (Some f)) s1 s2" and pv2: "plain_values s2"
    for N1 e s2
  proof (intro exI[of _ N1] exI[of _ "rejectPromise s2 d e"] conjI allI impI)
    show "delivered (invocation x (Some f)) s1 (rejectPromise s2 d e)"
      using d2 untouched_rejectPromise by (rule delivered_untouched)
    show "plain_values (rejectPromise s2 d e)" using pv2 by (rule plain_values_rejectPromise)
  next
    fix n and K :: "state \<Rightarrow> val outcome"
    assume "N1 \<le> n"
    with cb have c: "call_callback n s1 f x = Threw e s2" by blast
    show "(case call_callback n s1 f x of
               OutOfFuel \<Rightarrow> OutOfFuel
             | Threw e s2 \<Rightarrow> K (rejectPromise s2 d e)
             | Done y s2 \<Rightarrow>
                (case resolvePromise n s2 d y of
                   OutOfFuel \<Rightarrow> OutOfFuel
                 | Threw e s3 \<Rightarrow> K (rejectPromise s3 d e)
                 | Done _ s3 \<Rightarrow> K s3)) = K (rejectPromise s2 d e)"
      by (simp add: c)
  qed
  have ge1: "\<forall>n\<ge>Suc 0. P n" if "\<And>m. P (Suc m)" for P
  proof (intro allI impI)
    fix n :: nat assume "Suc 0 \<le> n"
    then obtain m where "n = Suc m" by (cases n) simp_all
    with that show "P n" by simp
  qed
  show ?thesis
  proof (cases f)
    case (UserFn l g)
    let ?s3 = "log_event s1 (Invoked l x)"
    have d3: "delivered (invocation x (Some f)) s1 ?s3"
      by (simp add: UserFn delivered_def log_event_def)
    have pv3: "plain_values ?s3" using pv by (simp add: plain_values_log_event)
    show ?thesis
    proof (cases "g x")
      case (Return y)
      have "\<forall>n\<ge>Suc 0. call_callback n s1 f x = Done y ?s3"
        by (rule ge1) (simp add: UserFn call_callback_Suc Return)
      then show ?thesis using d3 pv3 by (rule after)
    next
      case (Throw e)
      have "\<forall>n\<ge>Suc 0. call_callback n s1 f x = Threw e ?s3"
        by (rule ge1) (simp add: UserFn call_callback_Suc Throw)
      then show ?thesis using d3 pv3 by (rule raise)
    qed
  next
    case (AdoptResolve source)
    from resolvePromise_stable[OF pv, of source x]
    obtain N r where r: "r \<noteq> OutOfFuel" "\<forall>n\<ge>N. resolvePromise n s1 source x = r"
      by blast
    from r(2) have rN: "resolvePromise N s1 source x = r" by simp
    have rel: "holds_after untouched s1 r" "holds_after keeps_plain_values s1 r"
      using resolvePromise_untouched[of s1 N source x] resolvePromise_keeps[of s1 N source x] rN
      by simp_all
    have cb: "\<forall>n\<ge>Suc N. call_callback n s1 f x = r"
    proof (intro allI impI)
      fix n assume "Suc N \<le> n"
      then obtain m where "n = Suc m" "N \<le> m" by (cases n) simp_all
      with r(2) show "call_callback n s1 f x = r" by (simp add: AdoptResolve call_callback_Suc)
    qed
    show ?thesis
    proof (cases r)
      case OutOfFuel
      with r(1) show ?thesis by simp
    next
      case (Threw e s2)
      with rel pv have "delivered (invocation x (Some f)) s1 s2" "plain_values s2"
        by (simp_all add: keeps_plain_values_def AdoptResolve untouched_delivered)
      with cb Threw show ?thesis by (intro raise[of "Suc N" e s2]) simp_all
    next
      case (Done y s2)
      with rel pv have "delivered (invocation x (Some f)) s1 s2" "plain_values s2"
        by (simp_all add: keeps_plain_values_def AdoptResolve untouched_delivered)
      with cb Done show ?thesis by (intro after[of "Suc N" y s2]) simp_all
    qed
  next
    case (AdoptReject source)
    let ?s2 = "rejectPromise s1 source x"
    have "\<forall>n\<ge>Suc 0. call_callback n s1 f x = Done Undefined ?s2"
      by (rule ge1) (simp add: AdoptReject call_callback_Suc)
    moreover have "delivered (invocation x (Some f)) s1 ?s2"
      by (simp add: AdoptReject untouched_delivered untouched_rejectPromise)
    moreover have "plain_values ?s2" using pv by (rule plain_values_rejectPromise)
    ultimately show ?thesis by (rule after)
  next
    case (AllFulfilled c i)
    with sm show ?thesis by simp
  next
    case (AllRejected c i)
    with sm show ?thesis by simp
  qed
qed

lemma flush_list_step:
  assumes pv: "plain_values s" and al: "p < next_promise s"
    and st: "p_status (heap s p) \<noteq> STATUS_PENDING"
    and lst: "p_list (heap s p) = item # rest"
    and um: "simple_member (member_for (heap s p) item)"
  shows "\<exists>N s'. (\<forall>n\<ge>N. flush_list (Suc n) s p ps = flush_list n s' p (ps @ [r_promise item])) \<and>
      trace s' = trace s @ invocation (settled_with (heap s p)) (member_for (heap s p) item) \<and>
      heap s' p = (heap s p)\<lparr>p_list := rest\<rparr> \<and>
      next_promise s \<le> next_promise s' \<and> plain_values s'"
proof -
  let ?s1 = "set_promise s p ((heap s p)\<lparr>p_list := rest\<rparr>)"
  let ?d = "r_promise item"
  let ?x = "settled_with (heap s p)"
  have pv1: "plain_values ?s1" using pv by (rule plain_values_pop)
  have s1: "next_promise ?s1 = next_promise s" "trace ?s1 = trace s"
    "heap ?s1 p = (heap s p)\<lparr>p_list := rest\<rparr>"
    by (simp_all add: set_promise_def)
  show ?thesis
  proof (cases "member_for (heap s p) item")
    case None
    with st have pf: "pick_func (heap s p) item = None" by (simp add: pick_func_member)
    from adoptPromise_settled[OF pv1, of p ?d] st s1
    obtain s' where s': "\<forall>n. adoptPromise (Suc (Suc n)) ?s1 ?d p = Done Undefined s'"
      "untouched ?s1 s'" "plain_values s'"
      by auto
    have step: "flush_list (Suc n) s p ps = flush_list n s' p (ps @ [?d])" if "2 \<le> n" for n
    proof -
      from that obtain m where "n = Suc (Suc m)" by (metis add_2_eq_Suc le_Suc_ex)
      with s'(1) show ?thesis by (simp add: flush_list_Suc_None[OF lst pf])
    qed
    from untouchedD[OF s'(2), of p] al st s1
    have "heap s' p = (heap s p)\<lparr>p_list := rest\<rparr>" "trace s' = trace s"
      "next_promise s \<le> next_promise s'"
      by simp_all
    with step s'(3) None show ?thesis by (intro exI[of _ 2] exI[of _ s']) simp
  next
    case (Some f)
    with st have pf: "pick_func (heap s p) item = Some (f, ?x)"
      by (simp add: pick_func_member)
    from reaction_phase[OF pv1, where f = f and x = ?x and d = ?d] um Some
    obtain N s' where ph: "\<forall>n\<ge>N. \<forall>K :: state \<Rightarrow> val outcome.
            (case call_callback n ?s1 f ?x of
               OutOfFuel \<Rightarrow> OutOfFuel
             | Threw e s2 \<Rightarrow> K (rejectPromise s2 ?d e)
             | Done y s2 \<Rightarrow>
                (case resolvePromise n s2 ?d y of
                   OutOfFuel \<Rightarrow> OutOfFuel
                 | Threw e s3 \<Rightarrow> K (rejectPromise s3 ?d e)
                 | Done _ s3 \<Rightarrow> K s3)) = K s'"
      and dl: "delivered (invocation ?x (Some f)) ?s1 s'" and pv': "plain_values s'"
      by auto
    have step: "\<forall>n\<ge>N. flush_list (Suc n) s p ps = flush_list n s' p (ps @ [?d])"
    proof (intro allI impI)
      fix n assume nN: "N \<le> n"
      from ph[rule_format, OF nN, of "\<lambda>s. flush_list n s p (ps @ [?d])"]
      show "flush_list (Suc n) s p ps = flush_list n s' p (ps @ [?d])"
        by (simp add: flush_list_Suc_callback[OF lst pf])
    qed
    from dl al st s1 have "heap s' p = (heap s p)\<lparr>p_list := rest\<rparr>"
      "trace s' = trace s @ invocation ?x (Some f)" "next_promise s \<le> next_promise s'"
      by (simp_all add: delivered_def)
    with step pv' Some show ?thesis by (intro exI[of _ N] exI[of _ s']) simp
  qed
qed

lemma flush_list_delivers:
  assumes "plain_values s" "p < next_promise s" "p_status (heap s p) \<noteq> STATUS_PENDING"
    and "p_list (heap s p) = items"
    and "list_all (\<lambda>item. simple_member (member_for (heap s p) item)) items"
  shows "\<exists>k j s1. (\<forall>n. flush_list (k + n) s p ps = flush_promises (j + n) s1 (ps @ map r_promise items)) \<and>
      trace s1 = trace s @
        concat (map (\<lambda>item. invocation (settled_with (heap s p)) (member_for (heap s p) item)) items)"
  using assms
proof (induction items arbitrary: s ps)
  case Nil
  then have "\<forall>n. flush_list (1 + n) s p ps = flush_promises (0 + n) s (ps @ map r_promise [])"
    by (simp add: flush_list_Suc_Nil)
  then show ?case by (intro exI[of _ 1] exI[of _ 0] exI[of _ s]) simp
next
  case (Cons item rest)
  from Cons.prems(5) have um: "simple_member (member_for (heap s p) item)"
    and ums: "list_all (\<lambda>item. simple_member (member_for (heap s p) item)) rest"
    by simp_all
  from flush_list_step[OF Cons.prems(1-4) um, of ps]
  obtain N s' where step: "\<forall>n\<ge>N. flush_list (Suc n) s p ps = flush_list n s' p (ps @ [r_promise item])"
    and tr: "trace s' = trace s @ invocation (settled_with (heap s p)) (member_for (heap s p) item)"
    and hp: "heap s' p = (heap s p)\<lparr>p_list := rest\<rparr>"
    and nx: "next_promise s \<le> next_promise s'" and pv': "plain_values s'"
    by blast
  have same: "member_for (heap s' p) = member_for (heap s p)"
    "settled_with (heap s' p) = settled_with (heap s p)"
    by (simp_all add: hp member_for_def settled_with_def fun_eq_iff)
  have "\<exists>k j s1. (\<forall>n. flush_list (k + n) s' p (ps @ [r_promise item]) =
          flush_promises (j + n) s1 ((ps @ [r_promise item]) @ map r_promise rest)) \<and>
      trace s1 = trace s' @
        concat (map (\<lambda>item. invocation (settled_with (heap s' p)) (member_for (heap s' p) item)) rest)"
  proof (rule Cons.IH[OF pv'])
    show "p < next_promise s'" using Cons.prems(2) nx by simp
    show "p_status (heap s' p) \<noteq> STATUS_PENDING" using Cons.prems(3) by (simp add: hp)
    show "p_list (heap s' p) = rest" by (simp add: hp)
    show "list_all (\<lambda>item. simple_member (member_for (heap s' p) item)) rest"
      using ums by (simp add: same)
  qed
  then obtain k j s1 where
    ih: "\<forall>n. flush_list (k + n) s' p (ps @ [r_promise item]) =
          flush_promises (j + n) s1 ((ps @ [r_promise item]) @ map r_promise rest)"
    and tr1: "trace s1 = trace s' @
        concat (map (\<lambda>item. invocation (settled_with (heap s p)) (member_for (heap s p) item)) rest)"
    by (auto simp: same)
  have "flush_list (Suc (k + N) + n) s p ps =
      flush_promises ((j + N) + n) s1 (ps @ map r_promise (item # rest))" for n
  proof -
    have "flush_list (Suc (k + N + n)) s p ps = flush_list (k + N + n) s' p (ps @ [r_promise item])"
      using step by simp
    also have "\<dots> = flush_promises (j + (N + n)) s1 ((ps @ [r_promise item]) @ map r_promise rest)"
      using ih[rule_format, of "N + n"] by (simp add: add.assoc)
    finally show ?thesis by (simp add: add.assoc)
  qed
  moreover have "trace s1 = trace s @
      concat (map (\<lambda>item. invocation (settled_with (heap s p)) (member_for (heap s p) item)) (item # rest))"
    by (simp add: tr1 tr)
  ultimately show ?case by blast
qed

lemma proto_then_list:
  "f < next_promise s \<Longrightarrow>
   p_list (heap (snd (proto_then s f onFulfilled onRejected)) f) =
     p_list (heap s f) @
       [\<lparr>r_resolve = onFulfilled, r_reject = onRejected, r_promise = next_promise s\<rparr>]"
  by (simp add: proto_then_def Promise_noop_def nextTick_def Let_def)

lemma flush_Suc_settled:
  "p_status (heap s p) \<noteq> STATUS_PENDING \<Longrightarrow> flush (Suc n) s p = flush_list n s p []"
  by (simp add: flush_def flush_list_def flush_promises_body_def)

subsection \<open>The examples of the specification\<close>

lemma Promise_noop_is_constructor:
  "Promise_call n s Undefined (Function None []) =
     Done (PromiseRef (fst (Promise_noop s))) (snd (Promise_noop s))"
  by (simp add: Promise_call_def isPromise_def new_Promise_def call_executor_def Promise_noop_def)

lemma example_aggregate_success:
  "fst (Promise_all all_success1 [0, 1]) = 2 \<and> ticks all_success2 = [0, 1] \<and>
   p_status (heap all_success2 2) = STATUS_PENDING \<and>
   p_status (heap all_success3 2) = STATUS_PENDING \<and>
   p_status (heap all_success4 2) = STATUS_FULFILLED \<and>
   p_value (heap all_success4 2) = ArrayRef 0 \<and>
   a_values (alls all_success4 0) = [Some (Num 1), Some (Num 2)]"
  by (simp add: all_success4_def all_success3_def all_success2_def all_success1_def
      fulfilled_state_def eval_defs)

lemma example_aggregate_short_circuit:
  "fst (Promise_all short_circuit1 [0, 1]) = 2 \<and> ticks short_circuit2 = [1] \<and>
   p_status (heap short_circuit3 0) = STATUS_PENDING \<and>
   p_status (heap short_circuit3 2) = STATUS_REJECTED \<and>
   p_reason (heap short_circuit3 2) = Str ''x''"
  by (simp add: short_circuit3_def short_circuit2_def short_circuit1_def pending_state_def eval_defs)

lemma example_chaining:
  "ticks chain2 = [0] \<and> trace chain2 = [] \<and>
   trace chain3 = [Invoked 1 (Num 1), Invoked 2 (Num 2)] \<and>
   p_status (heap chain3 2) = STATUS_FULFILLED \<and> p_value (heap chain3 2) = Num 3"
  by (simp add: chain3_def chain2_def chain1_def fulfilled_state_def eval_defs)

lemma example_catch:
  "p_status (heap catch3 1) = STATUS_FULFILLED \<and> p_value (heap catch3 1) = Str ''e!''"
  by (simp add: catch3_def catch2_def catch1_def eval_defs)

subsection \<open>Executors that only settle\<close>

lemma flush_settled_empty:
  "p_status (heap s me) \<noteq> STATUS_PENDING \<Longrightarrow> p_list (heap s me) = [] \<Longrightarrow>
   flush (Suc (Suc (Suc n))) s me = Done Undefined s"
  by (simp add: flush_def flush_promises_body_def flush_list_body_def)

lemma resolve_callback_settled:
  assumes "p_status (heap s me) \<noteq> STATUS_PENDING" "p_list (heap s me) = []"
  shows "resolve_callback (Suc (Suc (Suc n))) s me v = Done Undefined s"
  by (simp only: resolve_callback_def resolvePromise_settled[OF assms(1)]
      flush_settled_empty[OF assms] outcome.case)

lemma reject_callback_settled:
  assumes "p_status (heap s me) \<noteq> STATUS_PENDING" "p_list (heap s me) = []"
  shows "reject_callback (Suc (Suc (Suc n))) s me reason = Done Undefined s"
  by (simp only: reject_callback_def rejectPromise_settled[OF assms(1)]
      flush_settled_empty[OF assms])

lemma resolve_callback_first:
  assumes "p_status (heap s me) = STATUS_PENDING" "p_list (heap s me) = []" "inert v"
  shows "resolve_callback (Suc (Suc (Suc n))) s me v = Done Undefined (fulfill s me v)"
proof -
  have "flush (Suc (Suc (Suc n))) (fulfill s me v) me = Done Undefined (fulfill s me v)"
    by (rule flush_settled_empty) (simp_all add: fulfill_def assms)
  then show ?thesis
    by (simp only: resolve_callback_def resolvePromise_Suc_inert[OF assms(1,3)] outcome.case)
qed

lemma reject_callback_first:
  assumes "p_status (heap s me) = STATUS_PENDING" "p_list (heap s me) = []"
  shows "reject_callback (Suc (Suc (Suc n))) s me reason =
           Done Undefined (rejectPromise s me reason)"
  unfolding reject_callback_def
  by (rule flush_settled_empty) (simp_all add: rejectPromise_def assms)

lemma run_executor_settled:
  "p_status (heap s me) \<noteq> STATUS_PENDING \<Longrightarrow> p_list (heap s me) = [] \<Longrightarrow>
   list_all simple_action acts \<Longrightarrow>
   run_executor (Suc (Suc (Suc n))) s me acts = Done Undefined s"
proof (induction acts)
  case Nil
  show ?case by simp
next
  case (Cons a acts)
  show ?case
  proof (cases a)
    case (ExecResolve v)
    with Cons show ?thesis
      by (simp add: resolve_callback_settled del: run.simps)
  next
    case (ExecReject reason)
    with Cons show ?thesis
      by (simp add: reject_callback_settled del: run.simps)
  next
    case (ExecThrow e)
    with Cons.prems show ?thesis by simp
  qed
qed

lemma run_executor_simple:
  assumes "p_status (heap s me) = STATUS_PENDING" "p_list (heap s me) = []"
    and "list_all simple_action acts"
  shows "run_executor (Suc (Suc (Suc n))) s me acts = Done Undefined (settle_first s me acts)"
proof (cases acts)
  case Nil
  then show ?thesis by simp
next
  case (Cons a rest)
  with assms(3) have rest: "list_all simple_action rest" by simp
  show ?thesis
  proof (cases a)
    case (ExecResolve v)
    with Cons assms(3) have i: "inert v" by simp
    have "run_executor (Suc (Suc (Suc n))) (fulfill s me v) me rest =
        Done Undefined (fulfill s me v)"
      by (rule run_executor_settled[OF _ _ rest]) (simp_all add: fulfill_def assms)
    with Cons ExecResolve show ?thesis
      by (simp add: resolve_callback_first[OF assms(1,2) i] del: run.simps)
  next
    case (ExecReject reason)
    have "run_executor (Suc (Suc (Suc n))) (rejectPromise s me reason) me rest =
        Done Undefined (rejectPromise s me reason)"
      by (rule run_executor_settled[OF _ _ rest]) (simp_all add: rejectPromise_def assms)
    with Cons ExecReject show ?thesis
      by (simp add: reject_callback_first[OF assms(1,2)] del: run.simps)
  next
    case (ExecThrow e)
    with Cons assms(3) show ?thesis by simp
  qed
qed

lemma entered_list: "p_list (heap (entered s label) (next_promise s)) = []"
  by (simp add: entered_def Promise_noop_def log_event_def set_promise_def empty_promise_def
      split: option.splits)

lemma new_Promise_simple:
  assumes "list_all simple_action acts"
  shows "new_Promise (Suc (Suc (Suc n))) s (Function label acts) =
    Done (PromiseRef (next_promise s)) (settle_first (entered s label) (next_promise s) acts)"
  by (simp only: new_Promise_Function
      run_executor_simple[OF entered_pending entered_list assms] outcome.case)

lemma settle_first_trace: "trace (settle_first s me acts) = trace s"
proof (cases acts)
  case Nil
  then show ?thesis by simp
next
  case (Cons a rest)
  then show ?thesis
    by (cases a) (simp_all add: fulfill_def rejectPromise_def set_promise_def)
qed

lemma settle_first_status:
  "p_status (heap s me) = STATUS_PENDING \<Longrightarrow>
   p_status (heap (settle_first s me acts) me) =
     (case acts of
        [] \<Rightarrow> STATUS_PENDING
      | ExecResolve v # _ \<Rightarrow> STATUS_FULFILLED
      | ExecReject reason # _ \<Rightarrow> STATUS_REJECTED
      | ExecThrow e # _ \<Rightarrow> STATUS_PENDING)"
  by (simp add: fulfill_def rejectPromise_def split: list.splits exec_action.splits)

lemma resolve_callback_self:
  "p_status (heap s f) = STATUS_PENDING \<Longrightarrow>
   resolve_callback (Suc n) s f (PromiseRef f) = Threw same_object_error s"
  by (simp only: resolve_callback_def resolvePromise_self outcome.case)

subsection \<open>Every construction halts\<close>

lemma same_list_refl: "same_list p s s"
  by (simp add: same_list_def)

lemma same_list_transp: "transp (same_list p)"
  by (auto simp: transp_def same_list_def)

lemma same_list_rejectPromise: "same_list p s (rejectPromise s q r)"
  by (simp add: same_list_def rejectPromise_def set_promise_def)

lemma same_list_fulfill: "same_list p s (fulfill s q v)"
  by (simp add: same_list_def fulfill_def set_promise_def)

lemma same_list_proto_then: "t \<noteq> p \<Longrightarrow> same_list p s (snd (proto_then s t f g))"
  by (simp add: same_list_def proto_then_def Promise_noop_def nextTick_def set_promise_def Let_def)

lemma run_same_list: "subject c p \<Longrightarrow> holds_after (same_list p) (call_state c) (run n c)"
proof (induction n arbitrary: c)
  case 0
  show ?case by simp
next
  case (Suc n)
  note tr = same_list_transp[of p]
  show ?case
  proof (cases c)
    case (ResolvePromise s q v)
    with Suc.prems have q: "q = p" by simp
    have a: "holds_after (same_list p) s (run n (AdoptPromise s p t))" if "t \<noteq> p" for t
      using Suc.IH[of "AdoptPromise s p t"] that by simp
    have b: "holds_after (same_list p) s (run n (ThenCall s p acts False False))" for acts
      using Suc.IH[of "ThenCall s p acts False False"] by simp
    show ?thesis
      unfolding ResolvePromise q
      by (auto simp: resolvePromise_body_def same_list_refl same_list_rejectPromise
          same_list_fulfill a b split: val.splits then_read.splits)
  next
    case (AdoptPromise s source target)
    with Suc.prems have q: "source = p" "target \<noteq> p" by simp_all
    have a: "holds_after (same_list p) s (run n (ResolvePromise s p v))" for v
      using Suc.IH[of "ResolvePromise s p v"] by simp
    show ?thesis
      unfolding AdoptPromise q(1) using q(2)
      by (auto simp: adoptPromise_body_def same_list_rejectPromise same_list_proto_then a
          split: status.splits)
  next
    case (ThenCall s q acts a b)
    with Suc.prems have q: "q = p" by simp
    have ih1: "holds_after (same_list p) s1 (run n (ResolvePromise s1 p v))" for v s1
      using Suc.IH[of "ResolvePromise s1 p v"] by simp
    have ih2: "holds_after (same_list p) s1 (run n (ThenCall s1 p rest a1 b1))" for s1 rest a1 b1
      using Suc.IH[of "ThenCall s1 p rest a1 b1"] by simp
    show ?thesis
    proof (cases acts)
      case Nil
      then show ?thesis by (simp add: ThenCall then_call_body_def same_list_refl)
    next
      case (Cons act rest)
      show ?thesis
      proof (cases act)
        case (CallResolve v)
        show ?thesis
        proof (cases a)
          case True
          then show ?thesis
            by (simp add: ThenCall q Cons CallResolve then_call_body_def ih2)
        next
          case False
          have "holds_after (same_list p) s
            (case run n (ResolvePromise s p v) of
               OutOfFuel \<Rightarrow> OutOfFuel
             | Threw e s' \<Rightarrow> Done Undefined s'
             | Done x s' \<Rightarrow> run n (ThenCall s' p rest True b))"
            by (rule holds_after_try[OF tr ih1]) (simp_all add: same_list_refl ih2)
          then show ?thesis
            by (simp add: ThenCall q Cons CallResolve False then_call_body_def)
        qed
      next
        case (CallReject r)
        have "holds_after (same_list p) s (run n (ThenCall (rejectPromise s p r) p rest a True))"
          by (rule holds_after_trans[OF tr same_list_rejectPromise ih2])
        then show ?thesis
          by (simp add: ThenCall q Cons CallReject then_call_body_def ih2)
      next
        case (ThrowInThen e)
        then show ?thesis
          by (simp add: ThenCall q Cons then_call_body_def same_list_refl same_list_rejectPromise)
      qed
    qed
  next
    case (CallCallback s f x)
    with Suc.prems show ?thesis by simp
  next
    case (FlushPromises s ps)
    with Suc.prems show ?thesis by simp
  next
    case (FlushList s q ps)
    with Suc.prems show ?thesis by simp
  qed
qed

lemma flush_empty_list:
  "p_list (heap s me) = [] \<Longrightarrow> flush (Suc (Suc (Suc n))) s me = Done Undefined s"
  by (simp add: flush_def flush_promises_body_def flush_list_body_def)

lemma three_more: "N + 3 \<le> n \<Longrightarrow> \<exists>m. n = Suc (Suc (Suc m))"
  by (rule exI[of _ "n - 3"]) simp

lemma resolve_callback_halts:
  assumes pv: "plain_values s" and lt: "me < next_promise s" and l: "p_list (heap s me) = []"
  shows "\<exists>N r. r \<noteq> OutOfFuel \<and> (\<forall>n\<ge>N. resolve_callback n s me v = r) \<and>
           plain_values (final r) \<and> me < next_promise (final r) \<and>
           p_list (heap (final r) me) = [] \<and> trace (final r) = trace s"
proof -
  from resolvePromise_stable[OF pv, of me v] obtain N r
    where r: "r \<noteq> OutOfFuel" "\<forall>n\<ge>N. resolvePromise n s me v = r" by blast
  then have rN: "resolvePromise N s me v = r" by simp
  have k: "holds_after keeps_plain_values s r" using resolvePromise_keeps[of s N me v] rN by simp
  have pf: "plain_values (final r)" by (rule holds_after_keeps[OF k pv r(1)])
  have sl: "holds_after (same_list me) s r"
    using run_same_list[of "ResolvePromise s me v" me N] rN by (simp add: resolvePromise_def)
  from holds_after_final[OF sl r(1)] lt l
  have fl: "me < next_promise (final r)" "p_list (heap (final r) me) = []"
    by (simp_all add: same_list_def)
  have "holds_after untouched s r" using resolvePromise_untouched[of s N me v] rN by simp
  from holds_after_final[OF this r(1)] have tr: "trace (final r) = trace s"
    by (simp add: untouched_def)
  show ?thesis
  proof (cases r)
    case OutOfFuel
    with r(1) show ?thesis by simp
  next
    case (Threw e s')
    have "\<forall>n\<ge>N. resolve_callback n s me v = r"
      using r(2) by (simp add: resolve_callback_def Threw)
    with r(1) pf fl tr show ?thesis by blast
  next
    case (Done x s')
    with fl have l': "p_list (heap s' me) = []" by (simp add: final_def)
    have "\<forall>n\<ge>N + 3. resolve_callback n s me v = Done Undefined s'"
    proof (intro allI impI)
      fix n assume n: "N + 3 \<le> n"
      then obtain m where m: "n = Suc (Suc (Suc m))" using three_more by blast
      from n r(2) have "resolvePromise n s me v = Done x s'" by (simp add: Done)
      then show "resolve_callback n s me v = Done Undefined s'"
        by (simp add: resolve_callback_def m flush_empty_list[OF l'])
    qed
    moreover have "plain_values (final (Done Undefined s' :: val outcome))"
      "me < next_promise (final (Done Undefined s' :: val outcome))"
      "p_list (heap (final (Done Undefined s' :: val outcome)) me) = []"
      "trace (final (Done Undefined s' :: val outcome)) = trace s"
      using pf fl tr by (simp_all add: Done final_def)
    ultimately show ?thesis by (intro exI[of _ "N + 3"] exI[of _ "Done Undefined s'"]) simp
  qed
qed

lemma reject_callback_empty:
  assumes "p_list (heap s me) = []"
  shows "reject_callback (Suc (Suc (Suc n))) s me reason = Done Undefined (rejectPromise s me reason)"
  unfolding reject_callback_def
  by (rule flush_empty_list) (simp add: rejectPromise_def assms)

lemma run_executor_halts:
  "plain_values s \<Longrightarrow> me < next_promise s \<Longrightarrow> p_list (heap s me) = [] \<Longrightarrow>
   \<exists>N r. r \<noteq> OutOfFuel \<and> (\<forall>n\<ge>N. run_executor n s me acts = r) \<and>
          trace (final r) = trace s"
proof (induction acts arbitrary: s)
  case Nil
  show ?case by (intro exI[of _ 0] exI[of _ "Done Undefined s"]) (simp add: final_def)
next
  case (Cons a acts)
  show ?case
  proof (cases a)
    case (ExecResolve v)
    from resolve_callback_halts[OF Cons.prems, of v] obtain N r where
      r: "r \<noteq> OutOfFuel" "\<forall>n\<ge>N. resolve_callback n s me v = r" "plain_values (final r)"
        "me < next_promise (final r)" "p_list (heap (final r) me) = []"
        "trace (final r) = trace s" by blast
    show ?thesis
    proof (cases r)
      case OutOfFuel
      with r(1) show ?thesis by simp
    next
      case (Threw e s')
      with r(2) have "\<forall>n\<ge>N. run_executor n s me (a # acts) = Threw e s'"
        by (simp add: ExecResolve)
      moreover have "trace (final (Threw e s' :: val outcome)) = trace s"
        using r(6) by (simp add: Threw)
      ultimately show ?thesis by blast
    next
      case (Done x s')
      with r have s': "plain_values s'" "me < next_promise s'" "p_list (heap s' me) = []"
        and t': "trace s' = trace s"
        by (simp_all add: final_def)
      from Cons.IH[OF s'] obtain M r' where
        r': "r' \<noteq> OutOfFuel" "\<forall>n\<ge>M. run_executor n s' me acts = r'"
          "trace (final r') = trace s'" by blast
      have "\<forall>n\<ge>max N M. run_executor n s me (a # acts) = r'"
        using r(2) r'(2) by (simp add: ExecResolve Done)
      with r'(1,3) t' show ?thesis
        by (intro exI[of _ "max N M"] exI[of _ r']) simp
    qed
  next
    case (ExecReject reason)
    let ?s = "rejectPromise s me reason"
    have "plain_values ?s" by (rule plain_values_rejectPromise[OF Cons.prems(1)])
    moreover have "me < next_promise ?s" "p_list (heap ?s me) = []"
      using Cons.prems(2,3) by (simp_all add: rejectPromise_def set_promise_def)
    ultimately obtain M r' where
      r': "r' \<noteq> OutOfFuel" "\<forall>n\<ge>M. run_executor n ?s me acts = r'"
        "trace (final r') = trace ?s"
      using Cons.IH by blast
    have t': "trace ?s = trace s" by (simp add: rejectPromise_def set_promise_def)
    have "\<forall>n\<ge>M + 3. run_executor n s me (a # acts) = r'"
    proof (intro allI impI)
      fix n assume n: "M + 3 \<le> n"
      then obtain m where m: "n = Suc (Suc (Suc m))" using three_more by blast
      from n r'(2) have "run_executor n ?s me acts = r'" by simp
      then show "run_executor n s me (a # acts) = r'"
        using reject_callback_empty[OF Cons.prems(3), of m reason]
        by (simp add: ExecReject m del: run.simps)
    qed
    with r'(1,3) t' show ?thesis
      by (intro exI[of _ "M + 3"] exI[of _ r']) simp
  next
    case (ExecThrow e)
    show ?thesis
      by (intro exI[of _ 0] exI[of _ "Threw e s"]) (simp add: ExecThrow final_def)
  qed
qed

lemma new_Promise_halts:
  assumes "plain_values s"
  shows "\<exists>N. \<forall>n\<ge>N. new_Promise n s (Function label acts) \<noteq> OutOfFuel \<and>
           trace (final (new_Promise n s (Function label acts))) = trace (entered s label)"
proof -
  have lt: "next_promise s < next_promise (entered s label)" by (simp add: entered_next)
  from run_executor_halts[OF plain_values_entered[OF assms] lt entered_list, where acts = acts]
  obtain N r where r: "r \<noteq> OutOfFuel"
    "\<forall>n\<ge>N. run_executor n (entered s label) (next_promise s) acts = r"
    "trace (final r) = trace (entered s label)" by blast
  have "new_Promise n s (Function label acts) \<noteq> OutOfFuel \<and>
           trace (final (new_Promise n s (Function label acts))) = trace (entered s label)"
    if "N \<le> n" for n
    using r that by (cases r) (simp_all add: new_Promise_Function final_def)
  then show ?thesis by blast
qed

subsection \<open>Order of delivery when a promise is settled through its own callback\<close>

text \<open>
  \<open>then\<close> appends the new reaction at the end of the promise's list.  When a pending
  promise (in a state the program reaches) whose reactions were registered by \<open>then\<close>
  with user functions or without a function, or by \<open>adoptPromise\<close>, is settled through
  the callback the constructor handed out, the call reaches the point where \<open>flush\<close> has
  emptied the list and turns to the derived promises, and up to that point exactly the
  matching functions of the reactions have been invoked, one after the other in the order
  of the list.
\<close>

lemma direct_settlement_runs_in_order:
  "(f < next_promise s \<longrightarrow>
      p_list (heap (snd (proto_then s f onFulfilled onRejected)) f) =
        p_list (heap s f) @
          [\<lparr>r_resolve = onFulfilled, r_reject = onRejected, r_promise = next_promise s\<rparr>]) \<and>
   (plain_values s \<and> f < next_promise s \<and> p_status (heap s f) = STATUS_PENDING \<longrightarrow>
      (inert v \<and> list_all (\<lambda>item. simple_member (r_resolve item)) (p_list (heap s f)) \<longrightarrow>
         (\<exists>k j s1.
            (\<forall>n. resolve_callback (k + n) s f v =
                   flush_promises (j + n) s1 (map r_promise (p_list (heap s f)))) \<and>
            trace s1 =
              trace s @ concat (map (\<lambda>item. invocation v (r_resolve item)) (p_list (heap s f))))) \<and>
      (list_all (\<lambda>item. simple_member (r_reject item)) (p_list (heap s f)) \<longrightarrow>
         (\<exists>k j s1.
            (\<forall>n. reject_callback (k + n) s f reason =
                   flush_promises (j + n) s1 (map r_promise (p_list (heap s f)))) \<and>
            trace s1 =
              trace s @
                concat (map (\<lambda>item. invocation reason (r_reject item)) (p_list (heap s f))))))"
proof (intro conjI impI)
  assume "f < next_promise s"
  then show "p_list (heap (snd (proto_then s f onFulfilled onRejected)) f) =
        p_list (heap s f) @
          [\<lparr>r_resolve = onFulfilled, r_reject = onRejected, r_promise = next_promise s\<rparr>]"
    by (rule proto_then_list)
next
  assume a: "plain_values s \<and> f < next_promise s \<and> p_status (heap s f) = STATUS_PENDING"
    and b: "inert v \<and> list_all (\<lambda>item. simple_member (r_resolve item)) (p_list (heap s f))"
  let ?s0 = "fulfill s f v"
  let ?items = "p_list (heap s f)"
  have s0: "heap ?s0 f = (heap s f)\<lparr>p_status := STATUS_FULFILLED, p_value := v\<rparr>"
    "next_promise ?s0 = next_promise s" "trace ?s0 = trace s"
    by (simp_all add: fulfill_def set_promise_def)
  have mem: "member_for (heap ?s0 f) = r_resolve" "settled_with (heap ?s0 f) = v"
    by (simp_all add: s0 member_for_def settled_with_def fun_eq_iff)
  have "\<exists>k j s1. (\<forall>n. flush_list (k + n) ?s0 f [] = flush_promises (j + n) s1 ([] @ map r_promise ?items)) \<and>
      trace s1 = trace ?s0 @
        concat (map (\<lambda>item. invocation (settled_with (heap ?s0 f)) (member_for (heap ?s0 f) item)) ?items)"
  proof (rule flush_list_delivers)
    show "plain_values ?s0" using a b by (simp add: plain_values_fulfill)
    show "f < next_promise ?s0" using a by (simp add: s0)
    show "p_status (heap ?s0 f) \<noteq> STATUS_PENDING" by (simp add: s0)
    show "p_list (heap ?s0 f) = ?items" by (simp add: s0)
    show "list_all (\<lambda>item. simple_member (member_for (heap ?s0 f) item)) ?items"
      using b by (simp add: mem)
  qed
  then obtain k j s1 where
    d: "\<forall>n. flush_list (k + n) ?s0 f [] = flush_promises (j + n) s1 (map r_promise ?items)"
    and t: "trace s1 = trace s @ concat (map (\<lambda>item. invocation v (r_resolve item)) ?items)"
    by (auto simp: mem s0(3))
  have "resolve_callback (Suc k + n) s f v = flush_promises (j + n) s1 (map r_promise ?items)" for n
  proof -
    have "resolve_callback (Suc (k + n)) s f v = flush (Suc (k + n)) ?s0 f"
      using a b by (simp add: resolve_callback_def resolvePromise_Suc_inert)
    also have "\<dots> = flush_list (k + n) ?s0 f []"
      by (rule flush_Suc_settled) (simp add: s0)
    finally show ?thesis using d by simp
  qed
  with t show "\<exists>k j s1.
            (\<forall>n. resolve_callback (k + n) s f v =
                   flush_promises (j + n) s1 (map r_promise (p_list (heap s f)))) \<and>
            trace s1 =
              trace s @ concat (map (\<lambda>item. invocation v (r_resolve item)) (p_list (heap s f)))"
    by blast
next
  assume a: "plain_values s \<and> f < next_promise s \<and> p_status (heap s f) = STATUS_PENDING"
    and b: "list_all (\<lambda>item. simple_member (r_reject item)) (p_list (heap s f))"
  let ?s0 = "rejectPromise s f reason"
  let ?items = "p_list (heap s f)"
  have s0: "heap ?s0 f = (heap s f)\<lparr>p_status := STATUS_REJECTED, p_reason := reason\<rparr>"
    "next_promise ?s0 = next_promise s" "trace ?s0 = trace s"
    using a by (simp_all add: rejectPromise_def set_promise_def)
  have mem: "member_for (heap ?s0 f) = r_reject" "settled_with (heap ?s0 f) = reason"
    by (simp_all add: s0 member_for_def settled_with_def fun_eq_iff)
  have "\<exists>k j s1. (\<forall>n. flush_list (k + n) ?s0 f [] = flush_promises (j + n) s1 ([] @ map r_promise ?items)) \<and>
      trace s1 = trace ?s0 @
        concat (map (\<lambda>item. invocation (settled_with (heap ?s0 f)) (member_for (heap ?s0 f) item)) ?items)"
  proof (rule flush_list_delivers)
    show "plain_values ?s0" using a by (simp add: plain_values_rejectPromise)
    show "f < next_promise ?s0" using a by (simp add: s0)
    show "p_status (heap ?s0 f) \<noteq> STATUS_PENDING" by (simp add: s0)
    show "p_list (heap ?s0 f) = ?items" by (simp add: s0)
    show "list_all (\<lambda>item. simple_member (member_for (heap ?s0 f) item)) ?items"
      using b by (simp add: mem)
  qed
  then obtain k j s1 where
    d: "\<forall>n. flush_list (k + n) ?s0 f [] = flush_promises (j + n) s1 (map r_promise ?items)"
    and t: "trace s1 = trace s @ concat (map (\<lambda>item. invocation reason (r_reject item)) ?items)"
    by (auto simp: mem s0(3))
  have "reject_callback (Suc k + n) s f reason = flush_promises (j + n) s1 (map r_promise ?items)" for n
  proof -
    have "reject_callback (Suc (k + n)) s f reason = flush (Suc (k + n)) ?s0 f"
      by (simp add: reject_callback_def)
    also have "\<dots> = flush_list (k + n) ?s0 f []"
      by (rule flush_Suc_settled) (simp add: s0)
    finally show ?thesis using d by simp
  qed
  with t show "\<exists>k j s1.
            (\<forall>n. reject_callback (k + n) s f reason =
                   flush_promises (j + n) s1 (map r_promise (p_list (heap s f)))) \<and>
            trace s1 =
              trace s @
                concat (map (\<lambda>item. invocation reason (r_reject item)) (p_list (heap s f)))"
    by blast
qed

lemma direct_settlement_example:
  "plain_values three_waiting \<and> (0::nat) < next_promise three_waiting \<and>
   p_status (heap three_waiting 0) = STATUS_PENDING \<and> inert (Num 7) \<and>
   map r_resolve (p_list (heap three_waiting 0)) =
     [Some (UserFn 1 Return), Some (UserFn 2 always_raises), Some (UserFn 3 Return)] \<and>
   map r_promise (p_list (heap three_waiting 0)) = [1, 2, 3] \<and>
   (\<exists>k j s1.
      (\<forall>n. resolve_callback (k + n) three_waiting 0 (Num 7) = flush_promises (j + n) s1 [1, 2, 3]) \<and>
      trace s1 = [ExecutorInvoked 0, Invoked 1 (Num 7), Invoked 2 (Num 7), Invoked 3 (Num 7)]) \<and>
   returned (resolve_callback 12 three_waiting 0 (Num 7)) \<and>
   trace (final (resolve_callback 12 three_waiting 0 (Num 7))) =
     [ExecutorInvoked 0, Invoked 1 (Num 7), Invoked 2 (Num 7), Invoked 3 (Num 7)]"
proof -
  have pv0: "plain_values pending_state"
    unfolding pending_state_def
    by (rule holds_after_keeps[OF new_Promise_keeps plain_values_init_state])
      (simp add: eval_defs)
  have pv: "plain_values three_waiting"
    unfolding three_waiting_def by (intro plain_values_proto_then pv0)
  have ev: "(0::nat) < next_promise three_waiting"
    "p_status (heap three_waiting 0) = STATUS_PENDING"
    "map r_resolve (p_list (heap three_waiting 0)) =
       [Some (UserFn 1 Return), Some (UserFn 2 always_raises), Some (UserFn 3 Return)]"
    "map r_promise (p_list (heap three_waiting 0)) = [1, 2, 3]"
    "trace three_waiting = [ExecutorInvoked 0]"
    by (simp_all add: three_waiting_def pending_state_def eval_defs)
  have run: "returned (resolve_callback 12 three_waiting 0 (Num 7))"
    "trace (final (resolve_callback 12 three_waiting 0 (Num 7))) =
       [ExecutorInvoked 0, Invoked 1 (Num 7), Invoked 2 (Num 7), Invoked 3 (Num 7)]"
    by (simp_all add: three_waiting_def pending_state_def always_raises_def eval_defs)
  have i: "inert (Num 7)" by (simp add: inert_def isPromise_def)
  have lst: "p_list (heap three_waiting 0) =
      [\<lparr>r_resolve = Some (UserFn 1 Return), r_reject = None, r_promise = 1\<rparr>,
       \<lparr>r_resolve = Some (UserFn 2 always_raises), r_reject = None, r_promise = 2\<rparr>,
       \<lparr>r_resolve = Some (UserFn 3 Return), r_reject = None, r_promise = 3\<rparr>]"
    by (simp add: three_waiting_def pending_state_def eval_defs)
  have um: "list_all (\<lambda>item. simple_member (r_resolve item)) (p_list (heap three_waiting 0))"
    by (simp add: lst)
  have inv: "concat (map (\<lambda>item. invocation (Num 7) (r_resolve item)) (p_list (heap three_waiting 0)))
      = [Invoked 1 (Num 7), Invoked 2 (Num 7), Invoked 3 (Num 7)]"
    by (simp add: lst)
  note T = direct_settlement_runs_in_order[where s = three_waiting and f = 0 and v = "Num 7"]
  from T pv ev(1,2) i um
  have "\<exists>k j s1.
      (\<forall>n. resolve_callback (k + n) three_waiting 0 (Num 7) =
             flush_promises (j + n) s1 (map r_promise (p_list (heap three_waiting 0)))) \<and>
      trace s1 = trace three_waiting @
        concat (map (\<lambda>item. invocation (Num 7) (r_resolve item)) (p_list (heap three_waiting 0)))"
    by blast
  then have "\<exists>k j s1.
      (\<forall>n. resolve_callback (k + n) three_waiting 0 (Num 7) = flush_promises (j + n) s1 [1, 2, 3]) \<and>
      trace s1 = [ExecutorInvoked 0, Invoked 1 (Num 7), Invoked 2 (Num 7), Invoked 3 (Num 7)]"
    by (simp add: ev inv)
  with pv ev(1-4) i run show ?thesis by blast
qed

section \<open>The claims\<close>

text \<open>
  C6.  Once a promise has left the pending state, any further calls of
  \<open>resolvePromise\<close> and \<open>rejectPromise\<close> on it, in any number, in any order and with
  any values, return normally and leave the whole state as it is; in particular the
  status, the value and the reason of the promise do not change.
\<close>

theorem settle_again_idempotent:
  "p_status (heap s f) \<noteq> STATUS_PENDING \<Longrightarrow> settle_again (Suc n) s f calls = Done Undefined s"
proof (induction calls)
  case Nil
  show ?case by simp
next
  case (Cons c calls)
  show ?case
  proof (cases c)
    case (CallResolvePromise v)
    with Cons show ?thesis by (simp add: resolvePromise_settled)
  next
    case (CallRejectPromise reason)
    with Cons show ?thesis by (simp add: rejectPromise_settled)
  qed
qed

theorem settle_again_idempotent_witness:
  "p_status (heap fulfilled_state 0) = STATUS_FULFILLED \<and>
   p_value (heap fulfilled_state 0) = Num 1 \<and>
   settle_again (Suc 0) fulfilled_state 0
     [CallRejectPromise (Str ''e''), CallResolvePromise (Num 2), CallResolvePromise (PromiseRef 0)]
   = Done Undefined fulfilled_state"
proof -
  have st: "p_status (heap fulfilled_state 0) = STATUS_FULFILLED"
    by (simp add: fulfilled_state_def eval_defs)
  have v: "p_value (heap fulfilled_state 0) = Num 1"
    by (simp add: fulfilled_state_def eval_defs)
  have "p_status (heap fulfilled_state 0) \<noteq> STATUS_PENDING"
    using st by simp
  then have "settle_again (Suc 0) fulfilled_state 0
     [CallRejectPromise (Str ''e''), CallResolvePromise (Num 2), CallResolvePromise (PromiseRef 0)]
     = Done Undefined fulfilled_state"
    by (rule settle_again_idempotent)
  with st v show ?thesis by (intro conjI)
qed

text \<open>
  C10.  A plain call \<open>Promise(executor)\<close>, whose \<open>this\<close> is \<open>undefined\<close> (or any
  other value that is not an instance), does what \<open>new Promise(executor)\<close> does, for
  every executor.  It raises the error of line 332 when the executor is not a function.
  Whenever it returns, what it returns is the newly allocated instance, never
  \<open>undefined\<close>; and in a state the program reaches it does come back, given enough
  fuel.  With \<open>noop\<close> the instance is pending and has no reactions; with an executor
  that only settles it is settled as the executor's first call says.  The instance takes
  reactions like any other: \<open>then\<close> on it registers the reaction and returns its derived
  promise.
\<close>

theorem Promise_call_without_new:
  "Promise_call n s Undefined executor = new_Promise n s executor \<and>
   (\<not> isPromise this \<longrightarrow> Promise_call n s this executor = new_Promise n s executor) \<and>
   (\<not> callable executor \<longrightarrow> Promise_call n s Undefined executor = Threw executor_error s) \<and>
   (returned (Promise_call n s Undefined executor) \<longrightarrow>
      Promise_call n s Undefined executor =
        Done (PromiseRef (next_promise s)) (final (Promise_call n s Undefined executor)) \<and>
      next_promise s < next_promise (final (Promise_call n s Undefined executor))) \<and>
   (plain_values s \<longrightarrow>
      (\<exists>N. \<forall>n\<ge>N. Promise_call n s Undefined (Function label acts) \<noteq> OutOfFuel)) \<and>
   Promise_call n s Undefined (Function None []) =
     Done (PromiseRef (next_promise s)) (snd (Promise_noop s)) \<and>
   heap (snd (Promise_noop s)) (next_promise s) = empty_promise \<and>
   (list_all simple_action acts \<longrightarrow>
      Promise_call (Suc (Suc (Suc n))) s Undefined (Function label acts) =
        Done (PromiseRef (next_promise s)) (settle_first (entered s label) (next_promise s) acts) \<and>
      p_status (heap (settle_first (entered s label) (next_promise s) acts) (next_promise s)) =
        (case acts of
           [] \<Rightarrow> STATUS_PENDING
         | ExecResolve v # _ \<Rightarrow> STATUS_FULFILLED
         | ExecReject reason # _ \<Rightarrow> STATUS_REJECTED
         | ExecThrow e # _ \<Rightarrow> STATUS_PENDING)) \<and>
   fst (proto_then (snd (Promise_noop s)) (next_promise s) onFulfilled onRejected) =
     Suc (next_promise s) \<and>
   p_list (heap (snd (proto_then (snd (Promise_noop s)) (next_promise s) onFulfilled onRejected))
      (next_promise s)) =
     [\<lparr>r_resolve = onFulfilled, r_reject = onRejected, r_promise = Suc (next_promise s)\<rparr>]"
proof (intro conjI impI)
  show eq: "Promise_call n s Undefined executor = new_Promise n s executor" for n executor
    by (simp add: Promise_call_def isPromise_def)
  show "Promise_call n s this executor = new_Promise n s executor" if "\<not> isPromise this"
    using that by (simp add: Promise_call_def)
  show "Promise_call n s Undefined executor = Threw executor_error s" if "\<not> callable executor"
    using that by (cases executor) (simp_all add: eq new_Promise_def)
  have ret: "\<exists>label acts s'. executor = Function label acts \<and>
      new_Promise n s executor = Done (PromiseRef (next_promise s)) s'"
    if "returned (new_Promise n s executor)"
  proof (cases executor)
    case (NotCallable v)
    with that show ?thesis by (simp add: new_Promise_def)
  next
    case (Function label acts)
    with that show ?thesis
      by (cases "run_executor n (entered s label) (next_promise s) acts")
        (simp_all add: new_Promise_Function)
  qed
  show "Promise_call n s Undefined executor =
        Done (PromiseRef (next_promise s)) (final (Promise_call n s Undefined executor))"
    if "returned (Promise_call n s Undefined executor)"
    using ret that by (auto simp: eq final_def)
  show "next_promise s < next_promise (final (Promise_call n s Undefined executor))"
    if r: "returned (Promise_call n s Undefined executor)"
  proof -
    from ret r obtain label acts s' where
      f: "executor = Function label acts"
      "new_Promise n s executor = Done (PromiseRef (next_promise s)) s'"
      by (auto simp: eq)
    from new_Promise_extends[of s label n acts] f have "extends (entered s label) s'" by simp
    with f(2) show ?thesis by (simp add: eq f(1) final_def extends_def entered_next)
  qed
  show "\<exists>N. \<forall>n\<ge>N. Promise_call n s Undefined (Function label acts) \<noteq> OutOfFuel"
    if "plain_values s"
    using new_Promise_halts[OF that, of label acts] by (auto simp: eq)
  show "Promise_call n s Undefined (Function None []) =
     Done (PromiseRef (next_promise s)) (snd (Promise_noop s))"
    by (simp add: eq new_Promise_def call_executor_def Promise_noop_def)
  show "heap (snd (Promise_noop s)) (next_promise s) = empty_promise"
    by (simp add: Promise_noop_def)
  show "Promise_call (Suc (Suc (Suc n))) s Undefined (Function label acts) =
        Done (PromiseRef (next_promise s)) (settle_first (entered s label) (next_promise s) acts)"
    if "list_all simple_action acts"
    by (simp only: eq new_Promise_simple[OF that])
  show "p_status (heap (settle_first (entered s label) (next_promise s) acts) (next_promise s)) =
        (case acts of
           [] \<Rightarrow> STATUS_PENDING
         | ExecResolve v # _ \<Rightarrow> STATUS_FULFILLED
         | ExecReject reason # _ \<Rightarrow> STATUS_REJECTED
         | ExecThrow e # _ \<Rightarrow> STATUS_PENDING)"
    by (rule settle_first_status[OF entered_pending])
  show "fst (proto_then (snd (Promise_noop s)) (next_promise s) onFulfilled onRejected) =
     Suc (next_promise s)"
    by (simp add: proto_then_def Promise_noop_def Let_def)
  show "p_list (heap (snd (proto_then (snd (Promise_noop s)) (next_promise s) onFulfilled onRejected))
      (next_promise s)) =
     [\<lparr>r_resolve = onFulfilled, r_reject = onRejected, r_promise = Suc (next_promise s)\<rparr>]"
    by (simp add: proto_then_def Promise_noop_def nextTick_def empty_promise_def Let_def)
qed

theorem Promise_call_without_new_witness:
  "\<not> callable (NotCallable (Num 3)) \<and>
   Promise_call 5 init_state Undefined (NotCallable (Num 3)) = Threw executor_error init_state \<and>
   \<not> isPromise (Object 0) \<and>
   Promise_call 5 init_state (Object 0) (Function (Some 0) []) =
     new_Promise 5 init_state (Function (Some 0) []) \<and>
   list_all simple_action [ExecResolve (Num 1), ExecReject (Str ''late'')] \<and>
   Promise_call (Suc (Suc (Suc 0))) init_state Undefined
     (Function (Some 3) [ExecResolve (Num 1), ExecReject (Str ''late'')]) =
     Done (PromiseRef (next_promise init_state))
       (settle_first (entered init_state (Some 3)) (next_promise init_state)
          [ExecResolve (Num 1), ExecReject (Str ''late'')]) \<and>
   p_status (heap (settle_first (entered init_state (Some 3)) (next_promise init_state)
          [ExecResolve (Num 1), ExecReject (Str ''late'')]) (next_promise init_state)) =
     STATUS_FULFILLED \<and>
   plain_values init_state \<and>
   (\<exists>N. \<forall>n\<ge>N. Promise_call n init_state Undefined
      (Function (Some 0) [ExecResolve (Thenable (ThenFunction [CallResolve (Num 1)]))]) \<noteq> OutOfFuel) \<and>
   plain_call = new_Promise 5 init_state (Function (Some 0) []) \<and>
   returned plain_call \<and>
   plain_call = Done (PromiseRef 0) pending_state \<and>
   next_promise init_state < next_promise (final plain_call) \<and>
   returned plain_keep_7 \<and>
   trace (final plain_keep_7) = [ExecutorInvoked 0, Invoked 1 (Num 7)] \<and>
   p_status (heap (final plain_keep_7) 0) = STATUS_FULFILLED \<and>
   p_value (heap (final plain_keep_7) 0) = Num 7 \<and>
   p_status (heap (final plain_keep_7) 1) = STATUS_FULFILLED \<and>
   p_value (heap (final plain_keep_7) 1) = Num 7"
proof -
  have a: "\<not> callable (NotCallable (Num 3))" by simp
  have a': "\<not> isPromise (Object 0)" by (simp add: isPromise_def)
  have b: "list_all simple_action [ExecResolve (Num 1), ExecReject (Str ''late'')]"
    by (simp add: inert_def isPromise_def)
  have n0: "next_promise init_state = 0" by (simp add: init_state_def)
  note T1 = Promise_call_without_new[where n = 5 and s = init_state
      and executor = "NotCallable (Num 3)"]
  note T2 = Promise_call_without_new[where n = 0 and s = init_state and label = "Some 3"
      and acts = "[ExecResolve (Num 1), ExecReject (Str ''late'')]"]
  note T3 = Promise_call_without_new[where n = 5 and s = init_state
      and executor = "Function (Some 0) []" and this = "Object 0"]
  note T4 = Promise_call_without_new[where s = init_state and label = "Some 0"
      and acts = "[ExecResolve (Thenable (ThenFunction [CallResolve (Num 1)]))]"]
  have c: "Promise_call 5 init_state Undefined (NotCallable (Num 3)) = Threw executor_error init_state"
    using T1 a by blast
  have c': "Promise_call 5 init_state (Object 0) (Function (Some 0) []) =
     new_Promise 5 init_state (Function (Some 0) [])"
    using T3 a' by blast
  have d: "Promise_call (Suc (Suc (Suc 0))) init_state Undefined
     (Function (Some 3) [ExecResolve (Num 1), ExecReject (Str ''late'')]) =
     Done (PromiseRef (next_promise init_state))
       (settle_first (entered init_state (Some 3)) (next_promise init_state)
          [ExecResolve (Num 1), ExecReject (Str ''late'')])"
    using T2 b by blast
  have e: "p_status (heap (settle_first (entered init_state (Some 3)) (next_promise init_state)
          [ExecResolve (Num 1), ExecReject (Str ''late'')]) (next_promise init_state)) =
     STATUS_FULFILLED"
    using T2 b by simp
  have h0: "\<exists>N. \<forall>n\<ge>N. Promise_call n init_state Undefined
      (Function (Some 0) [ExecResolve (Thenable (ThenFunction [CallResolve (Num 1)]))]) \<noteq> OutOfFuel"
    using T4 plain_values_init_state by blast
  have f: "plain_call = new_Promise 5 init_state (Function (Some 0) [])"
    unfolding plain_call_def using T3 by blast
  have g1: "returned plain_call"
    by (simp add: f new_Promise_def call_executor_def Promise_noop_def)
  have g0: "final plain_call = pending_state"
    by (simp add: f pending_state_def)
  have g2: "plain_call = Done (PromiseRef 0) pending_state"
    "next_promise init_state < next_promise (final plain_call)"
    using T3 g1 unfolding plain_call_def[symmetric] g0 n0 by blast+
  have h: "returned plain_keep_7"
    "trace (final plain_keep_7) = [ExecutorInvoked 0, Invoked 1 (Num 7)]"
    "p_status (heap (final plain_keep_7) 0) = STATUS_FULFILLED"
    "p_value (heap (final plain_keep_7) 0) = Num 7"
    "p_status (heap (final plain_keep_7) 1) = STATUS_FULFILLED"
    "p_value (heap (final plain_keep_7) 1) = Num 7"
    unfolding plain_keep_7_def plain_waiting_def g0
    by (simp_all add: pending_state_def eval_defs)
  show ?thesis
    by (intro conjI a a' b c c' d e h0 f g1 g2 h plain_values_init_state)
qed

text \<open>
  C3 (the code departs from the claim).  \<open>Promise.all([])\<close> returns a new promise that
  is pending and has no reactions, registers nothing on any other promise and hands
  nothing to \<open>nextTick\<close>: the state changes by the new pending promise and the new
  closure only, so the returned promise is never fulfilled.
\<close>

theorem Promise_all_empty_stays_pending:
  "fst (Promise_all s []) = next_promise s \<and>
   heap (snd (Promise_all s [])) = (heap s)(next_promise s := empty_promise) \<and>
   p_status (heap (snd (Promise_all s [])) (fst (Promise_all s []))) = STATUS_PENDING \<and>
   p_list (heap (snd (Promise_all s [])) (fst (Promise_all s []))) = [] \<and>
   ticks (snd (Promise_all s [])) = ticks s \<and>
   trace (snd (Promise_all s [])) = trace s"
  by (simp add: Promise_all_def Promise_noop_def set_promise_def empty_promise_def Let_def)

text \<open>
  C5 (the code departs from the claim).  A thenable whose \<open>then\<close> calls its first
  callback with a pending promise \<open>q\<close> and then its second callback with \<open>'x'\<close>: the
  second call takes effect, the promise is rejected with \<open>'x'\<close>, and when \<open>q\<close> is
  fulfilled later the promise does not follow it.  The two callbacks are guarded by two
  separate flags (lines 243-244), so the second callback is not stopped by a call of the
  first.
\<close>

theorem thenable_second_call_wins:
  "returned thenable_call \<and>
   p_status (heap (final thenable_call) 1) = STATUS_REJECTED \<and>
   p_reason (heap (final thenable_call) 1) = Str ''x'' \<and>
   returned thenable_later \<and>
   p_status (heap (final thenable_later) 0) = STATUS_FULFILLED \<and>
   p_value (heap (final thenable_later) 0) = Num 5 \<and>
   p_status (heap (final thenable_later) 1) = STATUS_REJECTED \<and>
   p_reason (heap (final thenable_later) 1) = Str ''x''"
  by (simp add: thenable_later_def thenable_call_def thenable_state0_def pending_state_def eval_defs)

text \<open>
  C4 (the code departs from the claim).  The only input \<open>a\<close> of \<open>Promise.all([a])\<close>
  was resolved with a pending promise \<open>q\<close>.  When \<open>q\<close> is fulfilled with 5, \<open>a\<close>
  becomes fulfilled with 5, but the reaction that \<open>Promise.all\<close> registered on \<open>a\<close> is
  still in \<open>a.list\<close>, nothing has been handed to \<open>nextTick\<close>, and the promise returned
  by \<open>Promise.all\<close> is still pending: \<open>a\<close> was settled by the closure of line 204,
  which calls \<open>resolvePromise\<close> without \<open>flush\<close>.
\<close>

theorem Promise_all_misses_adopted_input:
  "fst (Promise_all all_state1 [1]) = 3 \<and>
   returned all_later \<and>
   p_status (heap (final all_later) 0) = STATUS_FULFILLED \<and>
   p_status (heap (final all_later) 1) = STATUS_FULFILLED \<and>
   p_value (heap (final all_later) 1) = Num 5 \<and>
   map r_resolve (p_list (heap (final all_later) 1)) = [Some (AllFulfilled 0 0)] \<and>
   ticks (final all_later) = [] \<and>
   p_status (heap (final all_later) 3) = STATUS_PENDING"
  by (simp add: all_later_def all_state2_def all_state1_def pending_state_def eval_defs)

text \<open>
  C2 (the code departs from the claim).  \<open>keep(f)\<close>, the callback of the pending promise
  \<open>f\<close> called with \<open>f\<close> itself, raises the error of line 228 to its caller and leaves
  \<open>f\<close> pending.  When a thenable resolves \<open>f\<close> with \<open>f\<close>, the same raise is swallowed
  by the \<open>catch\<close> of lines 278-289 and \<open>f\<close> stays pending as well.  Only \<open>flush\<close> does
  what the claim says: when a registered function returns the derived promise of its own
  reaction, the \<open>catch\<close> of lines 172-174 rejects that promise with the error.
\<close>

theorem self_resolution_escapes:
  "raised keep_self = Some same_object_error \<and>
   p_status (heap (final keep_self) 0) = STATUS_PENDING \<and>
   returned thenable_self \<and>
   p_status (heap (final thenable_self) 0) = STATUS_PENDING \<and>
   p_status (heap cyclic_state 1) = STATUS_PENDING \<and>
   returned (flush 10 cyclic_state 0) \<and>
   p_status (heap (final (flush 10 cyclic_state 0)) 1) = STATUS_REJECTED \<and>
   p_reason (heap (final (flush 10 cyclic_state 0)) 1) = same_object_error"
  by (simp add: keep_self_def thenable_self_def cyclic_state_def returns_itself_def
      pending_state_def eval_defs)

text \<open>
  C1 (counterexample).  A function registered with \<open>then\<close> on a pending promise has
  been invoked by the time the settlement callback \<open>keep(7)\<close> returns, and nothing was
  handed to \<open>nextTick\<close>: the callback calls \<open>flush\<close> itself (line 342).
\<close>

theorem settle_runs_reactions_counterexample:
  "returned keep_7 \<and>
   trace waiting_state = [ExecutorInvoked 0] \<and>
   trace (final keep_7) = [ExecutorInvoked 0, Invoked 1 (Num 7)] \<and>
   ticks (final keep_7) = []"
  by (simp add: keep_7_def waiting_state_def pending_state_def eval_defs)

text \<open>
  C1 (amended).  A function registered with \<open>then\<close> never runs inside the \<open>then\<close> call
  that registers it: \<open>then\<close> invokes nothing, on a promise that is already settled it
  hands exactly one \<open>flush\<close> of that promise to \<open>nextTick\<close>, and on a pending promise
  it schedules nothing.  Delivery does not always wait for \<open>nextTick\<close>: the settlement
  callback of a pending promise calls \<open>flush\<close> itself, so whenever it comes back from
  fulfilling the promise with a value that is not an object, the \<open>onFulfilled\<close>
  function of the first waiting reaction, if it has one, has already been invoked with
  that value.
\<close>

theorem then_defers_settle_delivers:
  "trace (snd (proto_then s me onFulfilled onRejected)) = trace s \<and>
   (me < next_promise s \<longrightarrow>
      ticks (snd (proto_then s me onFulfilled onRejected)) =
        (if p_status (heap s me) = STATUS_PENDING then ticks s else ticks s @ [me])) \<and>
   (p_status (heap s f) = STATUS_PENDING \<and> p_list (heap s f) = item # rest \<and>
    r_resolve item = Some (UserFn l g) \<and> \<not> is_object_or_function v \<and>
    resolve_callback n s f v \<noteq> OutOfFuel \<longrightarrow>
      prefix (trace s @ [Invoked l v]) (trace (final (resolve_callback n s f v))))"
proof (intro conjI impI)
  show "trace (snd (proto_then s me onFulfilled onRejected)) = trace s"
    by (rule proto_then_trace)
  show "ticks (snd (proto_then s me onFulfilled onRejected)) =
        (if p_status (heap s me) = STATUS_PENDING then ticks s else ticks s @ [me])"
    if "me < next_promise s"
    using that by (rule proto_then_ticks)
next
  assume h: "p_status (heap s f) = STATUS_PENDING \<and> p_list (heap s f) = item # rest \<and>
    r_resolve item = Some (UserFn l g) \<and> \<not> is_object_or_function v \<and>
    resolve_callback n s f v \<noteq> OutOfFuel"
  let ?r = "resolve_callback n s f v"
  let ?s1 = "fulfill s f v"
  let ?s3 = "log_event (set_promise ?s1 f ((heap ?s1 f)\<lparr>p_list := rest\<rparr>)) (Invoked l v)"
  from h obtain n1 where n: "n = Suc n1"
    by (cases n) (auto simp: resolve_callback_def resolvePromise_def)
  have r1: "?r = flush_promises (Suc n1) ?s1 [f]"
    using h by (simp add: n resolve_callback_def resolvePromise_plain flush_def flush_promises_def)
  have st: "p_status (heap ?s1 f) = STATUS_FULFILLED" "p_value (heap ?s1 f) = v"
    "p_list (heap ?s1 f) = item # rest"
    using h by (simp_all add: fulfill_def)
  from r1 st have r2: "?r = flush_list n1 ?s1 f []"
    by (simp add: flush_promises_Suc)
  from h r2 obtain n2 where n1: "n1 = Suc n2"
    by (cases n1) (auto simp: flush_list_def)
  have pf: "pick_func (heap ?s1 f) item = Some (UserFn l g, v)"
    using h st by (simp add: pick_func_def isFunction_def)
  from h r2 n1 st pf obtain n3 where n2: "n2 = Suc n3"
    by (cases n2) (auto simp: flush_list_def flush_list_body_def Let_def)
  have "holds_after extends ?s3 ?r"
    unfolding r2 n1 n2 by (rule flush_list_user_extends[OF st(3) pf])
  with h have e: "extends ?s3 (final ?r)"
    by (simp add: holds_after_final)
  have t3: "trace ?s3 = trace s @ [Invoked l v]" "ticks ?s3 = ticks s"
    by (simp_all add: log_event_def fulfill_def set_promise_def)
  from e t3 show "prefix (trace s @ [Invoked l v]) (trace (final ?r))"
    by (auto simp: extends_def prefix_def)
qed

theorem then_defers_settle_delivers_witness:
  "(0::nat) < next_promise fulfilled_state \<and>
   p_status (heap fulfilled_state 0) = STATUS_FULFILLED \<and>
   trace late_then = trace fulfilled_state \<and>
   ticks fulfilled_state = [] \<and>
   ticks late_then = [0] \<and>
   p_status (heap waiting_state 0) = STATUS_PENDING \<and>
   keep_7 \<noteq> OutOfFuel \<and>
   prefix (trace waiting_state @ [Invoked 1 (Num 7)]) (trace (final keep_7))"
proof -
  let ?item = "\<lparr>r_resolve = Some (UserFn 1 Return), r_reject = None, r_promise = 1\<rparr>"
  have a: "(0::nat) < next_promise fulfilled_state"
    "p_status (heap fulfilled_state 0) = STATUS_FULFILLED" "ticks fulfilled_state = []"
    by (simp_all add: fulfilled_state_def eval_defs)
  have b: "p_status (heap waiting_state 0) = STATUS_PENDING"
    "p_list (heap waiting_state 0) = ?item # []"
    by (simp_all add: waiting_state_def pending_state_def eval_defs)
  have c: "keep_7 \<noteq> OutOfFuel"
    by (simp add: keep_7_def waiting_state_def pending_state_def eval_defs)
  have hyp: "p_status (heap waiting_state 0) = STATUS_PENDING \<and>
    p_list (heap waiting_state 0) = ?item # [] \<and>
    r_resolve ?item = Some (UserFn 1 Return) \<and> \<not> is_object_or_function (Num 7) \<and>
    resolve_callback 10 waiting_state 0 (Num 7) \<noteq> OutOfFuel"
    using b c by (simp add: keep_7_def)
  note T1 = then_defers_settle_delivers[where s = fulfilled_state and me = 0
      and onFulfilled = "Some (UserFn 1 Return)" and onRejected = None]
  note T2 = then_defers_settle_delivers[where s = waiting_state and f = 0 and item = ?item
      and rest = "[]" and l = 1 and g = Return and v = "Num 7" and n = 10]
  have t: "trace late_then = trace fulfilled_state" "ticks late_then = [0]"
    using T1 a by (simp_all add: late_then_def)
  have k: "prefix (trace waiting_state @ [Invoked 1 (Num 7)]) (trace (final keep_7))"
    using T2 hyp unfolding keep_7_def by blast
  from a b c t k show ?thesis by simp
qed

text \<open>
  C7.  \<open>new Promise(executor)\<close> raises the error of line 332, with the state untouched,
  when \<open>executor\<close> is not a function.  When it is a function the constructor has no
  error of its own: it raises exactly what the run of the executor raises, and when that
  run returns it returns the new instance.  In particular an executor that only settles
  makes the constructor return the new instance, settled as its first call says, and an
  executor that raises before calling either callback makes the constructor raise the same
  value, the new promise being left pending: the raise is not turned into a rejection.
  The executor is invoked exactly once: its invocation is the first thing recorded, and
  whatever is recorded after it is an invocation of a registered function.  In a state the
  program reaches the constructor comes back, given enough fuel, and the invocation of the
  executor is then the only thing it has recorded.
\<close>

theorem constructor_runs_executor:
  "(new_Promise n s executor = Threw executor_error s \<longleftrightarrow> \<not> callable executor) \<and>
   raised (new_Promise n s (Function label acts)) =
     raised (run_executor n (entered s label) (next_promise s) acts) \<and>
   (returned (run_executor n (entered s label) (next_promise s) acts) \<longrightarrow>
      new_Promise n s (Function label acts) =
        Done (PromiseRef (next_promise s))
          (final (run_executor n (entered s label) (next_promise s) acts))) \<and>
   (list_all simple_action acts \<longrightarrow>
      new_Promise (Suc (Suc (Suc n))) s (Function label acts) =
        Done (PromiseRef (next_promise s)) (settle_first (entered s label) (next_promise s) acts) \<and>
      trace (settle_first (entered s label) (next_promise s) acts) = trace (entered s label) \<and>
      p_status (heap (settle_first (entered s label) (next_promise s) acts) (next_promise s)) =
        (case acts of
           [] \<Rightarrow> STATUS_PENDING
         | ExecResolve v # _ \<Rightarrow> STATUS_FULFILLED
         | ExecReject reason # _ \<Rightarrow> STATUS_REJECTED
         | ExecThrow e # _ \<Rightarrow> STATUS_PENDING)) \<and>
   trace (entered s (Some l)) = trace s @ [ExecutorInvoked l] \<and>
   (new_Promise n s (Function (Some l) acts) \<noteq> OutOfFuel \<longrightarrow>
      (\<exists>evs. trace (final (new_Promise n s (Function (Some l) acts))) =
               trace s @ ExecutorInvoked l # evs \<and> list_all is_invocation evs)) \<and>
   (plain_values s \<longrightarrow>
      (\<exists>N. \<forall>n\<ge>N. new_Promise n s (Function (Some l) acts) \<noteq> OutOfFuel \<and>
         trace (final (new_Promise n s (Function (Some l) acts))) =
           trace s @ [ExecutorInvoked l])) \<and>
   new_Promise n s (Function label (ExecThrow e # acts)) = Threw e (entered s label) \<and>
   p_status (heap (entered s label) (next_promise s)) = STATUS_PENDING"
proof (intro conjI impI)
  show "\<exists>N. \<forall>n\<ge>N. new_Promise n s (Function (Some l) acts) \<noteq> OutOfFuel \<and>
         trace (final (new_Promise n s (Function (Some l) acts))) =
           trace s @ [ExecutorInvoked l]"
    if "plain_values s"
    using new_Promise_halts[OF that, of "Some l" acts] by (simp add: entered_trace)
  have "new_Promise n s executor = Threw executor_error s" if "\<not> callable executor"
    using that by (cases executor) (simp_all add: new_Promise_def)
  moreover have "\<not> callable executor" if t: "new_Promise n s executor = Threw executor_error s"
  proof (cases executor)
    case (NotCallable v)
    then show ?thesis by simp
  next
    case (Function label acts)
    with t new_Promise_extends[of s label n acts] have "extends (entered s label) s"
      by simp
    then show ?thesis by (simp add: extends_def entered_next)
  qed
  ultimately show "new_Promise n s executor = Threw executor_error s \<longleftrightarrow> \<not> callable executor"
    by blast
  show "raised (new_Promise n s (Function label acts)) =
     raised (run_executor n (entered s label) (next_promise s) acts)"
    by (cases "run_executor n (entered s label) (next_promise s) acts")
      (simp_all add: new_Promise_Function)
  show "new_Promise n s (Function label acts) =
        Done (PromiseRef (next_promise s))
          (final (run_executor n (entered s label) (next_promise s) acts))"
    if "returned (run_executor n (entered s label) (next_promise s) acts)"
    using that
    by (cases "run_executor n (entered s label) (next_promise s) acts")
      (simp_all add: new_Promise_Function final_def)
  show "new_Promise (Suc (Suc (Suc n))) s (Function label acts) =
        Done (PromiseRef (next_promise s)) (settle_first (entered s label) (next_promise s) acts)"
    if "list_all simple_action acts"
    using that by (rule new_Promise_simple)
  show "trace (settle_first (entered s label) (next_promise s) acts) = trace (entered s label)"
    by (rule settle_first_trace)
  show "p_status (heap (settle_first (entered s label) (next_promise s) acts) (next_promise s)) =
        (case acts of
           [] \<Rightarrow> STATUS_PENDING
         | ExecResolve v # _ \<Rightarrow> STATUS_FULFILLED
         | ExecReject reason # _ \<Rightarrow> STATUS_REJECTED
         | ExecThrow e # _ \<Rightarrow> STATUS_PENDING)"
    by (rule settle_first_status[OF entered_pending])
  show "trace (entered s (Some l)) = trace s @ [ExecutorInvoked l]"
    by (simp add: entered_trace)
  show "\<exists>evs. trace (final (new_Promise n s (Function (Some l) acts))) =
               trace s @ ExecutorInvoked l # evs \<and> list_all is_invocation evs"
    if "new_Promise n s (Function (Some l) acts) \<noteq> OutOfFuel"
  proof -
    from new_Promise_extends[of s "Some l" n acts] that
    have "extends (entered s (Some l)) (final (new_Promise n s (Function (Some l) acts)))"
      by (rule holds_after_final)
    then show ?thesis by (auto simp: extends_def entered_trace)
  qed
  show "new_Promise n s (Function label (ExecThrow e # acts)) = Threw e (entered s label)"
    by (simp add: new_Promise_Function)
  show "p_status (heap (entered s label) (next_promise s)) = STATUS_PENDING"
    by (rule entered_pending)
qed

theorem constructor_runs_executor_witness:
  "\<not> callable (NotCallable (Num 3)) \<and>
   new_Promise 5 init_state (NotCallable (Num 3)) = Threw executor_error init_state \<and>
   list_all simple_action [ExecResolve (Num 1), ExecReject (Str ''late'')] \<and>
   new_Promise (Suc (Suc (Suc 0))) init_state
     (Function (Some 3) [ExecResolve (Num 1), ExecReject (Str ''late'')]) =
     Done (PromiseRef 0)
       (settle_first (entered init_state (Some 3)) 0
          [ExecResolve (Num 1), ExecReject (Str ''late'')]) \<and>
   trace (settle_first (entered init_state (Some 3)) 0
          [ExecResolve (Num 1), ExecReject (Str ''late'')]) = [ExecutorInvoked 3] \<and>
   p_status (heap (settle_first (entered init_state (Some 3)) 0
          [ExecResolve (Num 1), ExecReject (Str ''late'')]) 0) = STATUS_FULFILLED \<and>
   p_value (heap (settle_first (entered init_state (Some 3)) 0
          [ExecResolve (Num 1), ExecReject (Str ''late'')]) 0) = Num 1 \<and>
   returned (run_executor 5 (entered init_state (Some 3)) 0 [ExecResolve (Num 1)]) \<and>
   new_Promise 5 init_state (Function (Some 3) [ExecResolve (Num 1)]) =
     Done (PromiseRef 0) executor_state \<and>
   raised (new_Promise 5 init_state (Function (Some 3) [ExecResolve (Num 1)])) = None \<and>
   (\<exists>evs. trace executor_state = trace init_state @ ExecutorInvoked 3 # evs \<and>
          list_all is_invocation evs) \<and>
   p_status (heap executor_state 0) = STATUS_FULFILLED \<and>
   plain_values init_state \<and>
   (\<exists>N. \<forall>n\<ge>N. new_Promise n init_state (Function (Some 3) [ExecResolve (Num 1)]) \<noteq> OutOfFuel \<and>
      trace (final (new_Promise n init_state (Function (Some 3) [ExecResolve (Num 1)]))) =
        trace init_state @ [ExecutorInvoked 3]) \<and>
   new_Promise 5 init_state (Function (Some 3) [ExecThrow (Str ''no''), ExecResolve (Num 1)]) =
     Threw (Str ''no'') (entered init_state (Some 3)) \<and>
   p_status (heap (entered init_state (Some 3)) 0) = STATUS_PENDING"
proof -
  let ?two = "[ExecResolve (Num 1), ExecReject (Str ''late'')]"
  have n0: "next_promise init_state = 0" by (simp add: init_state_def)
  have a: "\<not> callable (NotCallable (Num 3))" by simp
  have b: "list_all simple_action ?two" by (simp add: inert_def isPromise_def)
  have ne: "new_Promise 5 init_state (Function (Some 3) [ExecResolve (Num 1)]) \<noteq> OutOfFuel"
    by (simp add: eval_defs)
  have rt: "returned (run_executor 5 (entered init_state (Some 3)) 0 [ExecResolve (Num 1)])"
    by (simp add: entered_def eval_defs)
  have st: "p_status (heap executor_state 0) = STATUS_FULFILLED"
    by (simp add: executor_state_def eval_defs)
  have ra: "raised (run_executor 5 (entered init_state (Some 3)) 0 [ExecResolve (Num 1)]) = None"
    using rt by (cases "run_executor 5 (entered init_state (Some 3)) 0 [ExecResolve (Num 1)]")
      simp_all
  have pv: "p_value (heap (settle_first (entered init_state (Some 3)) 0 ?two) 0) = Num 1"
    by (simp add: fulfill_def)
  note T1 = constructor_runs_executor[where n = 5 and s = init_state
      and executor = "NotCallable (Num 3)"]
  note T2 = constructor_runs_executor[where n = 0 and s = init_state and label = "Some 3"
      and l = 3 and acts = ?two, unfolded n0]
  note T3 = constructor_runs_executor[where n = 5 and s = init_state and label = "Some 3"
      and l = 3 and acts = "[ExecResolve (Num 1)]", unfolded n0]
  note T4 = constructor_runs_executor[where n = 5 and s = init_state and label = "Some 3"
      and e = "Str ''no''" and acts = "[ExecResolve (Num 1)]", unfolded n0]
  have c: "new_Promise 5 init_state (NotCallable (Num 3)) = Threw executor_error init_state"
    using T1 a by blast
  have d: "new_Promise (Suc (Suc (Suc 0))) init_state (Function (Some 3) ?two) =
     Done (PromiseRef 0) (settle_first (entered init_state (Some 3)) 0 ?two)"
    "trace (settle_first (entered init_state (Some 3)) 0 ?two) = trace (entered init_state (Some 3))"
    using T2 b by blast+
  have d3: "p_status (heap (settle_first (entered init_state (Some 3)) 0 ?two) 0) = STATUS_FULFILLED"
    using T2 b by simp
  have tr: "trace (entered init_state (Some 3)) = [ExecutorInvoked 3]"
    using T2 by (simp add: init_state_def)
  have e: "new_Promise 5 init_state (Function (Some 3) [ExecResolve (Num 1)]) =
     Done (PromiseRef 0) (final (run_executor 5 (entered init_state (Some 3)) 0 [ExecResolve (Num 1)]))"
    using T3 rt by blast
  then have e': "new_Promise 5 init_state (Function (Some 3) [ExecResolve (Num 1)]) =
     Done (PromiseRef 0) executor_state"
    by (simp add: executor_state_def final_def)
  have f: "raised (new_Promise 5 init_state (Function (Some 3) [ExecResolve (Num 1)])) = None"
    using T3 ra by simp
  have g: "\<exists>evs. trace executor_state = trace init_state @ ExecutorInvoked 3 # evs \<and>
          list_all is_invocation evs"
    unfolding executor_state_def using T3 ne by blast
  have h: "new_Promise 5 init_state (Function (Some 3) [ExecThrow (Str ''no''), ExecResolve (Num 1)]) =
     Threw (Str ''no'') (entered init_state (Some 3))"
    "p_status (heap (entered init_state (Some 3)) 0) = STATUS_PENDING"
    using T4 by blast+
  have i: "\<exists>N. \<forall>n\<ge>N. new_Promise n init_state (Function (Some 3) [ExecResolve (Num 1)]) \<noteq> OutOfFuel \<and>
      trace (final (new_Promise n init_state (Function (Some 3) [ExecResolve (Num 1)]))) =
        trace init_state @ [ExecutorInvoked 3]"
    using constructor_runs_executor[where s = init_state and l = 3
        and acts = "[ExecResolve (Num 1)]"] plain_values_init_state by blast
  have dt: "trace (settle_first (entered init_state (Some 3)) 0 ?two) = [ExecutorInvoked 3]"
    using d(2) tr by (simp only:)
  show ?thesis
    by (intro conjI a b c d(1) dt d3 pv rt e' f g st h i plain_values_init_state)
qed

text \<open>
  C9.  When the function that \<open>flush\<close> invokes for a reaction raises \<open>e\<close>, the loop
  of \<open>flush\<close> goes on with the remaining reactions and the work list, the derived
  promise of the reaction having been rejected with \<open>e\<close> (if it was pending, it is now
  rejected with reason \<open>e\<close>).  And in every state the program reaches (fulfilled promises
  hold inert values), \<open>flush\<close> never raises to its caller, whatever the registered
  functions raise.
\<close>

theorem callback_errors_are_captured:
  "(p_list (heap s p) = item # rest \<and> pick_func (heap s p) item = Some (UserFn l g, x) \<and>
    g x = Throw e \<longrightarrow>
      flush_list (Suc (Suc n)) s p ps =
        flush_list (Suc n)
          (rejectPromise (log_event (set_promise s p ((heap s p)\<lparr>p_list := rest\<rparr>)) (Invoked l x))
             (r_promise item) e)
          p (ps @ [r_promise item]) \<and>
      (p_status (heap s (r_promise item)) = STATUS_PENDING \<longrightarrow>
         p_status (heap (rejectPromise
            (log_event (set_promise s p ((heap s p)\<lparr>p_list := rest\<rparr>)) (Invoked l x))
             (r_promise item) e) (r_promise item)) = STATUS_REJECTED \<and>
         p_reason (heap (rejectPromise
            (log_event (set_promise s p ((heap s p)\<lparr>p_list := rest\<rparr>)) (Invoked l x))
             (r_promise item) e) (r_promise item)) = e)) \<and>
   (plain_values s \<longrightarrow> raised (flush n s p) = None)"
proof (intro conjI impI)
  assume h: "p_list (heap s p) = item # rest \<and> pick_func (heap s p) item = Some (UserFn l g, x) \<and>
    g x = Throw e"
  let ?s3 = "log_event (set_promise s p ((heap s p)\<lparr>p_list := rest\<rparr>)) (Invoked l x)"
  show "flush_list (Suc (Suc n)) s p ps =
        flush_list (Suc n) (rejectPromise ?s3 (r_promise item) e) p (ps @ [r_promise item])"
    using h by (simp add: flush_list_Suc_user[of s p item rest l g x])
  assume pend: "p_status (heap s (r_promise item)) = STATUS_PENDING"
  from h have "p_status (heap s p) \<noteq> STATUS_PENDING"
    by (auto simp: pick_func_def split: if_splits)
  with pend have "r_promise item \<noteq> p" by auto
  with pend have p3: "p_status (heap ?s3 (r_promise item)) = STATUS_PENDING"
    by (simp add: log_event_def)
  show "p_status (heap (rejectPromise ?s3 (r_promise item) e) (r_promise item)) = STATUS_REJECTED"
    using p3 by (simp add: rejectPromise_def)
  show "p_reason (heap (rejectPromise ?s3 (r_promise item) e) (r_promise item)) = e"
    using p3 by (simp add: rejectPromise_def)
next
  assume "plain_values s"
  then show "raised (flush n s p) = None" by (rule flush_never_raises)
qed

theorem callback_errors_are_captured_witness:
  "plain_values raising_state \<and>
   p_list (heap raising_state 0) =
     [\<lparr>r_resolve = Some (UserFn 1 always_raises), r_reject = None, r_promise = 1\<rparr>,
      \<lparr>r_resolve = Some (UserFn 2 Return), r_reject = None, r_promise = 2\<rparr>] \<and>
   p_status (heap raising_state 1) = STATUS_PENDING \<and>
   raised (flush 10 raising_state 0) = None \<and>
   returned (flush 10 raising_state 0) \<and>
   trace (final (flush 10 raising_state 0)) =
     [ExecutorInvoked 0, Invoked 1 (Num 7), Invoked 2 (Num 7)] \<and>
   p_status (heap (final (flush 10 raising_state 0)) 1) = STATUS_REJECTED \<and>
   p_reason (heap (final (flush 10 raising_state 0)) 1) = Str ''boom'' \<and>
   p_status (heap (final (flush 10 raising_state 0)) 2) = STATUS_FULFILLED \<and>
   p_value (heap (final (flush 10 raising_state 0)) 2) = Num 7 \<and>
   flush_list (Suc (Suc 0)) raising_state 0 [] =
     flush_list (Suc 0)
       (rejectPromise
          (log_event (set_promise raising_state 0 ((heap raising_state 0)\<lparr>p_list :=
             [\<lparr>r_resolve = Some (UserFn 2 Return), r_reject = None, r_promise = 2\<rparr>]\<rparr>))
             (Invoked 1 (Num 7)))
          1 (Str ''boom''))
       0 ([] @ [1])"
proof -
  let ?i1 = "\<lparr>r_resolve = Some (UserFn 1 always_raises), r_reject = None, r_promise = 1\<rparr>"
  let ?i2 = "\<lparr>r_resolve = Some (UserFn 2 Return), r_reject = None, r_promise = 2\<rparr>"
  have pv0: "plain_values pending_state"
    unfolding pending_state_def
    by (rule holds_after_keeps[OF new_Promise_keeps plain_values_init_state])
      (simp add: eval_defs)
  have ne: "resolvePromise 5
       (snd (proto_then (snd (proto_then pending_state 0 (Some (UserFn 1 always_raises)) None))
          0 (Some (UserFn 2 Return)) None))
       0 (Num 7) \<noteq> OutOfFuel"
    by (simp add: pending_state_def eval_defs)
  have pv: "plain_values raising_state"
    unfolding raising_state_def
    by (rule holds_after_keeps[OF resolvePromise_keeps _ ne])
      (simp add: plain_values_proto_then pv0)
  have lst: "p_list (heap raising_state 0) = [?i1, ?i2]"
    by (simp add: raising_state_def pending_state_def eval_defs)
  have pf: "pick_func (heap raising_state 0) ?i1 = Some (UserFn 1 always_raises, Num 7)"
    by (simp add: raising_state_def pending_state_def eval_defs)
  have pend: "p_status (heap raising_state 1) = STATUS_PENDING"
    by (simp add: raising_state_def pending_state_def eval_defs)
  have g: "always_raises (Num 7) = Throw (Str ''boom'')"
    by (simp add: always_raises_def)
  have ev: "returned (flush 10 raising_state 0)"
    "trace (final (flush 10 raising_state 0)) =
       [ExecutorInvoked 0, Invoked 1 (Num 7), Invoked 2 (Num 7)]"
    "p_status (heap (final (flush 10 raising_state 0)) 1) = STATUS_REJECTED"
    "p_reason (heap (final (flush 10 raising_state 0)) 1) = Str ''boom''"
    "p_status (heap (final (flush 10 raising_state 0)) 2) = STATUS_FULFILLED"
    "p_value (heap (final (flush 10 raising_state 0)) 2) = Num 7"
    by (simp_all add: raising_state_def pending_state_def always_raises_def eval_defs)
  note T = callback_errors_are_captured[where s = raising_state and p = 0 and item = ?i1
      and rest = "[?i2]" and l = 1 and g = always_raises and x = "Num 7" and e = "Str ''boom''"
      and ps = "[]"]
  have r: "raised (flush 10 raising_state 0) = None"
    using T[where n = 10] pv by blast
  have hyp: "p_list (heap raising_state 0) = ?i1 # [?i2] \<and>
     pick_func (heap raising_state 0) ?i1 = Some (UserFn 1 always_raises, Num 7) \<and>
     always_raises (Num 7) = Throw (Str ''boom'')"
    using lst pf g by simp
  have st: "flush_list (Suc (Suc 0)) raising_state 0 [] =
     flush_list (Suc 0)
       (rejectPromise
          (log_event (set_promise raising_state 0 ((heap raising_state 0)\<lparr>p_list := [?i2]\<rparr>))
             (Invoked 1 (Num 7)))
          1 (Str ''boom''))
       0 ([] @ [1])"
    using T[where n = 0] hyp by simp
  from pv lst pend r ev st show ?thesis by blast
qed

text \<open>
  C8 (the code departs from the claim).  Three functions are registered with \<open>then\<close> on
  the pending promise \<open>a\<close>, which was resolved with the pending promise \<open>q\<close>.  When
  \<open>q\<close> is fulfilled with 5, \<open>a\<close> becomes fulfilled with 5, but none of the three
  functions is invoked: when the call comes back the three reactions are still in
  \<open>a.list\<close> and nothing has been handed to \<open>nextTick\<close>.  \<open>a\<close> was settled by the
  closure of line 204, which calls \<open>resolvePromise\<close> without \<open>flush\<close>.  When a
  promise is settled through the callback the constructor handed out, the functions are
  invoked in the order of registration (\<open>direct_settlement_runs_in_order\<close>).
\<close>

theorem adopted_promise_reactions_not_run:
  "p_status (heap adopted_waiting 1) = STATUS_PENDING \<and>
   map r_resolve (p_list (heap adopted_waiting 1)) =
     [Some (UserFn 1 Return), Some (UserFn 2 Return), Some (UserFn 3 Return)] \<and>
   trace adopted_waiting = [ExecutorInvoked 0, ExecutorInvoked 1] \<and>
   returned adopted_later \<and>
   p_status (heap (final adopted_later) 0) = STATUS_FULFILLED \<and>
   p_status (heap (final adopted_later) 1) = STATUS_FULFILLED \<and>
   p_value (heap (final adopted_later) 1) = Num 5 \<and>
   trace (final adopted_later) = [ExecutorInvoked 0, ExecutorInvoked 1] \<and>
   map r_resolve (p_list (heap (final adopted_later) 1)) =
     [Some (UserFn 1 Return), Some (UserFn 2 Return), Some (UserFn 3 Return)] \<and>
   ticks (final adopted_later) = []"
  by (simp add: adopted_later_def adopted_waiting_def all_state1_def pending_state_def eval_defs)

end
